theory Spec2Isabelle
  imports Main "HOL-Library.Word"
begin

section \<open>Strings of the chat-reply pipeline\<close>

text \<open>
  The two text stages of the repository, \<^verbatim>\<open>makeConciseReply\<close> (hooks/useGroqAI.ts) and
  \<^verbatim>\<open>formatBotText\<close> (components/QuimiBot.tsx), work on JavaScript strings: sequences of
  UTF-16 code units. \<^verbatim>\<open>length\<close>, \<^verbatim>\<open>slice\<close>, \<^verbatim>\<open>lastIndexOf\<close> and the regular expressions
  (none has the \<^verbatim>\<open>u\<close> flag) all count code units.
\<close>

type_synonym cu = "16 word"
type_synonym jsstring = "cu list"

definition u :: "string \<Rightarrow> jsstring" where
  \<comment> \<open>an ASCII literal of the source as code units\<close>
  "u s = map of_char s"

abbreviation NL :: cu where "NL \<equiv> 0x0A"
abbreviation SPACE :: cu where "SPACE \<equiv> 0x20"
abbreviation PIPE :: cu where "PIPE \<equiv> 0x7C"
abbreviation ELLIPSIS :: cu where "ELLIPSIS \<equiv> 0x2026"

definition is_lt :: "cu \<Rightarrow> bool" where
  \<comment> \<open>ECMAScript LineTerminator: LF, CR, LS, PS\<close>
  "is_lt c = (c = 0x0A \<or> c = 0x0D \<or> c = 0x2028 \<or> c = 0x2029)"

definition is_ws :: "cu \<Rightarrow> bool" where
  \<comment> \<open>ECMAScript WhiteSpace or LineTerminator: what \<^verbatim>\<open>\s\<close> matches and \<^verbatim>\<open>trim\<close> strips\<close>
  "is_ws c = (c = 0x09 \<or> c = 0x0A \<or> c = 0x0B \<or> c = 0x0C \<or> c = 0x0D \<or> c = 0x20
      \<or> c = 0xA0 \<or> c = 0x1680 \<or> (0x2000 \<le> c \<and> c \<le> 0x200A)
      \<or> c = 0x2028 \<or> c = 0x2029 \<or> c = 0x202F \<or> c = 0x205F \<or> c = 0x3000 \<or> c = 0xFEFF)"

definition trimStart :: "jsstring \<Rightarrow> jsstring" where
  "trimStart s = dropWhile is_ws s"

definition trimEnd :: "jsstring \<Rightarrow> jsstring" where
  "trimEnd s = rev (dropWhile is_ws (rev s))"

definition trim :: "jsstring \<Rightarrow> jsstring" where
  "trim s = trimEnd (trimStart s)"

fun split_on :: "cu \<Rightarrow> jsstring \<Rightarrow> jsstring list" where
  \<comment> \<open>\<^verbatim>\<open>s.split(c)\<close> for a one-unit separator: the empty string gives one empty piece\<close>
  "split_on d [] = [[]]"
| "split_on d (c # cs) =
     (if c = d then [] # split_on d cs
      else (case split_on d cs of p # ps \<Rightarrow> (c # p) # ps | [] \<Rightarrow> [[c]]))"

fun join :: "jsstring \<Rightarrow> jsstring list \<Rightarrow> jsstring" where
  \<comment> \<open>\<^verbatim>\<open>pieces.join(sep)\<close>\<close>
  "join sep [] = []"
| "join sep [p] = p"
| "join sep (p # q # ps) = p @ sep @ join sep (q # ps)"

section \<open>Regular expressions\<close>

text \<open>
  The regular expressions of the source are kept as data and run by one backtracking
  matcher. A matcher state is the input already passed (latest unit first), the input
  ahead, and the captures. \<open>run\<close> lists every way the expression can match from a state,
  in the order in which ECMAScript's backtracking tries them: the first element is the
  match that \<^verbatim>\<open>exec\<close> finds. The flags are written into the expression: \<open>Bol m\<close> and
  \<open>Eol m\<close> are \<^verbatim>\<open>^\<close> and \<^verbatim>\<open>$\<close> with the \<^verbatim>\<open>m\<close> flag \<open>m\<close>, and a letter under the \<^verbatim>\<open>i\<close> flag
  is the class \<open>ci\<close>.
\<close>

datatype re =
    Eps
  | Chr "cu \<Rightarrow> bool"
  | Bol bool
  | Eol bool
  | Seq re re
  | Alt re re
  | Grp nat re
  | Rep bool nat "nat option" re

type_synonym captures = "(nat \<times> jsstring) list"
type_synonym mstate = "jsstring \<times> jsstring \<times> captures"

fun depth :: "re \<Rightarrow> nat" where
  "depth (Seq p q) = Suc (depth p + depth q)"
| "depth (Alt p q) = Suc (depth p + depth q)"
| "depth (Grp n p) = Suc (depth p)"
| "depth (Rep g mn mx p) = Suc (depth p)"
| "depth _ = 0"

fun dec :: "nat option \<Rightarrow> nat option" where
  "dec None = None"
| "dec (Some n) = Some (n - 1)"

function run :: "re \<Rightarrow> mstate \<Rightarrow> mstate list" where
  "run Eps st = [st]"
| "run (Chr P) (b, r, cs) =
     (case r of [] \<Rightarrow> [] | c # r' \<Rightarrow> if P c then [(c # b, r', cs)] else [])"
| "run (Bol m) (b, r, cs) =
     (case b of [] \<Rightarrow> [(b, r, cs)] | c # _ \<Rightarrow> if m \<and> is_lt c then [(b, r, cs)] else [])"
| "run (Eol m) (b, r, cs) =
     (case r of [] \<Rightarrow> [(b, r, cs)] | c # _ \<Rightarrow> if m \<and> is_lt c then [(b, r, cs)] else [])"
| "run (Seq p q) st = concat (map (run q) (run p st))"
| "run (Alt p q) st = run p st @ run q st"
| "run (Grp n p) (b, r, cs) =
     map (\<lambda>(b', r', cs'). (b', r', (n, rev (take (length b' - length b) b')) # cs'))
       (run p (b, r, cs))"
| "run (Rep g mn mx p) (b, r, cs) =
     (if mx = Some 0 then [(b, r, cs)]
      else
        let more = concat (map (\<lambda>(b', r', cs').
                     if length r' < length r \<or> (length r' = length r \<and> 0 < mn)
                     then run (Rep g (mn - 1) (dec mx) p) (b', r', cs') else [])
                   (run p (b, r, cs)))
        in if 0 < mn then more
           else if g then more @ [(b, r, cs)]
           else (b, r, cs) # more)"
  by pat_completeness auto
termination
  by (relation "inv_image (less_than <*lex*> less_than <*lex*> less_than)
        (\<lambda>(p, (b, r, cs)). (depth p, length r, (case p of Rep g mn mx q \<Rightarrow> mn | _ \<Rightarrow> 0)))")
     auto


fun search :: "re \<Rightarrow> jsstring \<Rightarrow> jsstring \<Rightarrow> (nat \<times> mstate) option" where
  \<comment> \<open>the leftmost match at or after the current position: the number of units skipped
      before it and the matcher's final state\<close>
  "search p b r =
     (case run p (b, r, []) of
        y # _ \<Rightarrow> Some (0, y)
      | [] \<Rightarrow> (case r of
                 [] \<Rightarrow> None
               | c # r' \<Rightarrow> map_option (\<lambda>(k, y). (Suc k, y)) (search p (c # b) r')))"

definition test :: "re \<Rightarrow> jsstring \<Rightarrow> bool" where
  \<comment> \<open>\<^verbatim>\<open>regex.test(s)\<close> for an expression without the \<^verbatim>\<open>g\<close> flag\<close>
  "test p s = (search p [] s \<noteq> None)"

definition cap :: "nat \<Rightarrow> captures \<Rightarrow> jsstring" where
  \<comment> \<open>\<^verbatim>\<open>$n\<close> in a replacement: the latest capture of group n, empty when unset\<close>
  "cap n cs = (case map_of cs n of Some t \<Rightarrow> t | None \<Rightarrow> [])"

definition replace_first ::
    "re \<Rightarrow> (jsstring \<Rightarrow> captures \<Rightarrow> jsstring) \<Rightarrow> jsstring \<Rightarrow> jsstring" where
  \<comment> \<open>\<^verbatim>\<open>s.replace(regex, f)\<close> for an expression without the \<^verbatim>\<open>g\<close> flag: \<open>f\<close> gets
      the matched text and the captures\<close>
  "replace_first p f s =
     (case search p [] s of
        None \<Rightarrow> s
      | Some (k, (b2, r2, cs2)) \<Rightarrow>
          take k s @ f (take (length (drop k s) - length r2) (drop k s)) cs2 @ r2)"

function replace_from ::
    "re \<Rightarrow> (jsstring \<Rightarrow> captures \<Rightarrow> jsstring) \<Rightarrow> jsstring \<Rightarrow> jsstring \<Rightarrow> jsstring" where
  "replace_from p f b r =
     (case search p b r of
        None \<Rightarrow> r
      | Some (k, (b2, r2, cs2)) \<Rightarrow>
          take k r @ f (take (length (drop k r) - length r2) (drop k r)) cs2 @
          (if length r2 < length (drop k r) then replace_from p f b2 r2
           else (case drop k r of
                   [] \<Rightarrow> []
                 | c # r1 \<Rightarrow> c # replace_from p f (c # rev (take k r) @ b) r1)))"
  by pat_completeness auto
termination
proof (relation "measure (\<lambda>(p, f, b, r). length r)", goal_cases)
  case 1
  show ?case by simp
next
  case (2 p f b r x2 k y b2 z r2 cs2)
  then show ?case by simp
next
  case (3 p f b r x2 k y b2 z r2 cs2 c r1)
  have "length (drop k r) \<le> length r" by simp
  with 3 show ?case by simp
qed

definition replace_all ::
    "re \<Rightarrow> (jsstring \<Rightarrow> captures \<Rightarrow> jsstring) \<Rightarrow> jsstring \<Rightarrow> jsstring" where
  \<comment> \<open>\<^verbatim>\<open>s.replace(regex, f)\<close> with the \<^verbatim>\<open>g\<close> flag: matches are found left to right, each
      search starting where the previous match ended, one unit further after an empty
      match\<close>
  "replace_all p f s = replace_from p f [] s"

subsection \<open>Writing the expressions\<close>

definition chr :: "cu \<Rightarrow> re" where
  "chr c = Chr (\<lambda>x. x = c)"

definition canon :: "cu \<Rightarrow> cu" where
  \<comment> \<open>Canonicalize of the \<^verbatim>\<open>i\<close> flag on the pattern characters of this source (ASCII and
      U+00A1): only an ASCII letter has another case, and no unit beyond ASCII is
      canonicalized to an ASCII one\<close>
  "canon c = (if 0x61 \<le> c \<and> c \<le> 0x7A then c - 0x20 else c)"

definition ci :: "cu \<Rightarrow> re" where
  "ci c = Chr (\<lambda>x. canon x = canon c)"

definition dot :: re where
  "dot = Chr (\<lambda>c. \<not> is_lt c)"

definition ws :: re where
  "ws = Chr is_ws"

fun seqs :: "re list \<Rightarrow> re" where
  "seqs [] = Eps"
| "seqs [p] = p"
| "seqs (p # ps) = Seq p (seqs ps)"

fun alts :: "re list \<Rightarrow> re" where
  "alts [] = Chr (\<lambda>_. False)"
| "alts [p] = p"
| "alts (p # ps) = Alt p (alts ps)"

definition lit :: "string \<Rightarrow> re" where
  "lit s = seqs (map (\<lambda>c. chr (of_char c)) s)"

definition lit_ci :: "string \<Rightarrow> re" where
  "lit_ci s = seqs (map (\<lambda>c. ci (of_char c)) s)"

abbreviation opt :: "re \<Rightarrow> re" where "opt p \<equiv> Rep True 0 (Some 1) p"
abbreviation star :: "re \<Rightarrow> re" where "star p \<equiv> Rep True 0 None p"
abbreviation plus :: "re \<Rightarrow> re" where "plus p \<equiv> Rep True 1 None p"
abbreviation star_lazy :: "re \<Rightarrow> re" where "star_lazy p \<equiv> Rep False 0 None p"
abbreviation plus_lazy :: "re \<Rightarrow> re" where "plus_lazy p \<equiv> Rep False 1 None p"


section \<open>The Reply Shaper (hooks/useGroqAI.ts)\<close>

definition MAX_RESPONSE_LINES :: nat where "MAX_RESPONSE_LINES = 6"
definition MAX_RESPONSE_CHARS :: nat where "MAX_RESPONSE_CHARS = 520"
definition MAX_TABLE_CHARS :: nat where "MAX_TABLE_CHARS = 2400"

definition lastIndexOf :: "cu \<Rightarrow> jsstring \<Rightarrow> int" where
  \<comment> \<open>\<^verbatim>\<open>s.lastIndexOf(c)\<close> for one unit: the index of its last occurrence, or -1\<close>
  "lastIndexOf c s =
     (if c \<in> set s then int (length s - 1 - length (takeWhile (\<lambda>x. x \<noteq> c) (rev s))) else - 1)"

fun last_at :: "jsstring \<Rightarrow> jsstring \<Rightarrow> nat \<Rightarrow> int \<Rightarrow> int" where
  "last_at pat [] i acc = (if pat = [] then int i else acc)"
| "last_at pat (c # cs) i acc =
     last_at pat cs (Suc i) (if take (length pat) (c # cs) = pat then int i else acc)"

definition lastIndexOfStr :: "jsstring \<Rightarrow> jsstring \<Rightarrow> int" where
  \<comment> \<open>\<^verbatim>\<open>s.lastIndexOf(pat)\<close>: the last index at which \<open>pat\<close> occurs, or -1\<close>
  "lastIndexOfStr pat s = last_at pat s 0 (- 1)"

definition endsWith :: "cu \<Rightarrow> jsstring \<Rightarrow> bool" where
  "endsWith c s = (case rev s of [] \<Rightarrow> False | x # _ \<Rightarrow> x = c)"

definition startsWith :: "cu \<Rightarrow> jsstring \<Rightarrow> bool" where
  "startsWith c s = (case s of [] \<Rightarrow> False | x # _ \<Rightarrow> x = c)"

definition re_connector :: re where
  \<comment> \<open>\<^verbatim>\<open>/\s+(de|del|y|e|o|u|con|para|por|en|a|que)$/i\<close>\<close>
  "re_connector =
     seqs [plus ws,
           Grp 1 (alts [lit_ci ''de'', lit_ci ''del'', lit_ci ''y'', lit_ci ''e'', lit_ci ''o'',
                        lit_ci ''u'', lit_ci ''con'', lit_ci ''para'', lit_ci ''por'',
                        lit_ci ''en'', lit_ci ''a'', lit_ci ''que'']),
           Eol False]"

definition trimDanglingConnector :: "jsstring \<Rightarrow> jsstring" where
  "trimDanglingConnector text = trim (replace_first re_connector (\<lambda>m cs. []) text)"

definition sentence_floor :: "nat \<Rightarrow> nat" where
  \<comment> \<open>\<^verbatim>\<open>Math.floor(maxChars * 0.55)\<close>. The double nearest to 0.55 lies above 0.55 by less
      than 1e-16, so for every length a string can have the rounded product lies in
      the same unit interval as the exact one, and the floor is that of 55 hundredths.\<close>
  "sentence_floor maxChars = (maxChars * 55) div 100"

definition lastPunctuationOf :: "jsstring \<Rightarrow> int" where
  "lastPunctuationOf chunk =
     max (lastIndexOf 0x2E chunk)
       (max (lastIndexOf 0x21 chunk)
         (max (lastIndexOf 0x3F chunk)
           (max (lastIndexOf 0x3B chunk) (lastIndexOf 0x3A chunk))))"

definition truncateAtSentenceBoundary :: "jsstring \<Rightarrow> nat \<Rightarrow> jsstring" where
  "truncateAtSentenceBoundary text maxChars =
     (if length text \<le> maxChars then trimDanglingConnector text
      else
        let chunk = trimEnd (take maxChars text);
            lastPunctuation = lastPunctuationOf chunk
        in if int (sentence_floor maxChars) \<le> lastPunctuation
           then trimDanglingConnector (take (nat (lastPunctuation + 1)) chunk)
           else
             let lastSpace = lastIndexOf SPACE chunk
             in if 0 < lastSpace
                then trimDanglingConnector (take (nat lastSpace) chunk) @ [ELLIPSIS]
                else trimDanglingConnector chunk @ [ELLIPSIS])"

definition re_filler1 :: re where
  \<comment> \<open>\<^verbatim>\<open>/^(\u00A1?buena pregunta!?\s*)/i\<close>, the inverted exclamation mark written as its escape\<close>
  "re_filler1 =
     seqs [Bol False,
           Grp 1 (seqs [opt (chr 0xA1), lit_ci ''buena pregunta'', opt (chr 0x21), star ws])]"

definition re_filler2 :: re where
  \<comment> \<open>\<^verbatim>\<open>/^(mira,?\s*esto es interesante\.?\s*)/i\<close>\<close>
  "re_filler2 =
     seqs [Bol False,
           Grp 1 (seqs [lit_ci ''mira'', opt (chr 0x2C), star ws,
                        lit_ci ''esto es interesante'', opt (chr 0x2E), star ws])]"

definition re_table_row :: re where
  \<comment> \<open>\<^verbatim>\<open>/^\|.+\|/m\<close>\<close>
  "re_table_row = seqs [Bol True, chr PIPE, plus dot, chr PIPE]"

definition re_tail_row :: re where
  \<comment> \<open>\<^verbatim>\<open>/\n\|[^\n]*$/m\<close>\<close>
  "re_tail_row = seqs [chr NL, chr PIPE, star (Chr (\<lambda>c. c \<noteq> NL)), Eol True]"

definition withoutFillerOpeners :: "jsstring \<Rightarrow> jsstring" where
  "withoutFillerOpeners text =
     trim (replace_first re_filler2 (\<lambda>m cs. [])
            (replace_first re_filler1 (\<lambda>m cs. []) text))"

definition hasTable :: "jsstring \<Rightarrow> bool" where
  "hasTable w = test re_table_row w"

definition compactLines :: "jsstring \<Rightarrow> jsstring" where
  \<comment> \<open>\<^verbatim>\<open>lines.join('\n')\<close> of the line branch\<close>
  "compactLines w =
     join [NL] (take MAX_RESPONSE_LINES (filter (\<lambda>l. l \<noteq> []) (map trim (split_on NL w))))"

definition makeConciseReply :: "jsstring \<Rightarrow> jsstring" where
  "makeConciseReply text =
     (let w = withoutFillerOpeners text
      in if hasTable w
         then (if length w \<le> MAX_TABLE_CHARS
               then replace_first re_tail_row
                      (\<lambda>m cs. if endsWith PIPE (trimEnd m) then m else []) w
               else
                 let chunk = take MAX_TABLE_CHARS w;
                     lastCompleteRow = lastIndexOfStr [PIPE, NL] chunk
                 in if 0 < lastCompleteRow then take (nat (lastCompleteRow + 1)) chunk
                    else chunk)
         else truncateAtSentenceBoundary (compactLines w) MAX_RESPONSE_CHARS)"

definition sentinel :: jsstring where
  "sentinel = u ''(sin respuesta)''"

definition rawReplyOf :: "jsstring option \<Rightarrow> jsstring" where
  \<comment> \<open>\<^verbatim>\<open>completion.choices[0]?.message?.content?.trim() || '(sin respuesta)'\<close> in
      \<^verbatim>\<open>sendMessage\<close>: a missing content is \<open>None\<close>, and the empty string is falsy\<close>
  "rawReplyOf content =
     (case content of
        None \<Rightarrow> sentinel
      | Some s \<Rightarrow> if trim s = [] then sentinel else trim s)"

definition shapedReply :: "jsstring option \<Rightarrow> jsstring" where
  \<comment> \<open>the reply that \<^verbatim>\<open>sendMessage\<close> stores and returns\<close>
  "shapedReply content = makeConciseReply (rawReplyOf content)"

section \<open>The Markdown Renderer (components/QuimiBot.tsx)\<close>

definition cells :: "jsstring \<Rightarrow> jsstring list" where
  \<comment> \<open>\<^verbatim>\<open>row.split('|').map(c => c.trim()).filter((_, i, a) => i > 0 && i < a.length - 1)\<close>\<close>
  "cells row =
     (let a = map trim (split_on PIPE row)
      in map snd (filter (\<lambda>(i, c). 0 < i \<and> int i < int (length a) - 1) (enumerate 0 a)))"

definition renderMarkdownTable :: "jsstring \<Rightarrow> jsstring" where
  \<open>renderMarkdownTable block =
     (let rows = filter (\<lambda>r. startsWith PIPE r \<and> endsWith PIPE r)
                   (map trim (split_on NL (trim block)))
      in case rows of
           header # sep # body \<Rightarrow>
             (let th = concat (map (\<lambda>c. u ''<th>'' @ c @ u ''</th>'') (cells header));
                  trs = concat (map (\<lambda>r. u ''<tr>''
                            @ concat (map (\<lambda>c. u ''<td>'' @ c @ u ''</td>'') (cells r))
                            @ u ''</tr>'') body)
              in u ''<table class="qb-table"><thead><tr>'' @ th
                 @ u ''</tr></thead><tbody>'' @ trs @ u ''</tbody></table>'')
         | _ \<Rightarrow> block)\<close>

definition escapeHtml :: "jsstring \<Rightarrow> jsstring" where
  \<comment> \<open>\<^verbatim>\<open>text.replace(/&/g, '&amp;').replace(/</g, '&lt;').replace(/>/g, '&gt;')\<close>\<close>
  "escapeHtml text =
     replace_all (chr 0x3E) (\<lambda>m cs. u ''&gt;'')
       (replace_all (chr 0x3C) (\<lambda>m cs. u ''&lt;'')
         (replace_all (chr 0x26) (\<lambda>m cs. u ''&amp;'') text))"

definition re_partial_row :: re where
  \<comment> \<open>\<^verbatim>\<open>/\n\|[^\n|]*$/m\<close>\<close>
  "re_partial_row =
     seqs [chr NL, chr PIPE, star (Chr (\<lambda>c. c \<noteq> NL \<and> c \<noteq> PIPE)), Eol True]"

definition dropPartialRow :: "jsstring \<Rightarrow> jsstring" where
  \<comment> \<open>\<^verbatim>\<open>out.replace(/\n\|[^\n|]*$/m, '')\<close>\<close>
  "dropPartialRow out = replace_first re_partial_row (\<lambda>m cs. []) out"

definition re_table_block :: re where
  \<comment> \<open>\<^verbatim>\<open>/((?:^\|.+\|\n?)+)/gm\<close>\<close>
  "re_table_block =
     Grp 1 (Rep True 1 None (seqs [Bol True, chr PIPE, plus dot, chr PIPE, opt (chr NL)]))"

definition re_bold :: re where
  \<comment> \<open>\<^verbatim>\<open>/\*\*(.+?)\*\*/g\<close>\<close>
  "re_bold = seqs [chr 0x2A, chr 0x2A, Grp 1 (plus_lazy dot), chr 0x2A, chr 0x2A]"

definition re_em :: re where
  \<comment> \<open>\<^verbatim>\<open>/\*(.+?)\*/g\<close>\<close>
  "re_em = seqs [chr 0x2A, Grp 1 (plus_lazy dot), chr 0x2A]"

definition re_code :: re where
  \<comment> \<open>\<^verbatim>\<open>/`([^`]+)`/g\<close>\<close>
  "re_code = seqs [chr 0x60, Grp 1 (plus (Chr (\<lambda>c. c \<noteq> 0x60))), chr 0x60]"

definition re_heading :: re where
  \<comment> \<open>\<^verbatim>\<open>/^#{1,3}\s+(.+)$/gm\<close>\<close>
  "re_heading =
     seqs [Bol True, Rep True 1 (Some 3) (chr 0x23), plus ws, Grp 1 (plus dot), Eol True]"

definition re_bullet :: re where
  \<comment> \<open>\<^verbatim>\<open>/^[-\u2022]\s+(.+)$/gm\<close>, the bullet written as its escape\<close>
  "re_bullet =
     seqs [Bol True, Chr (\<lambda>c. c = 0x2D \<or> c = 0x2022), plus ws, Grp 1 (plus dot), Eol True]"

definition re_items :: re where
  \<comment> \<open>\<^verbatim>\<open>/(<li>.*?<\/li>\n?)+/g\<close>\<close>
  "re_items =
     Rep True 1 None (Grp 1 (seqs [lit ''<li>'', star_lazy dot, lit ''</li>'', opt (chr NL)]))"

definition re_blank_lines :: re where
  \<comment> \<open>\<^verbatim>\<open>/\n{2,}/g\<close>\<close>
  "re_blank_lines = Rep True 2 None (chr NL)"

definition re_all :: re where
  \<comment> \<open>\<^verbatim>\<open>/^(.+)$/\<close>\<close>
  "re_all = seqs [Bol False, Grp 1 (plus dot), Eol False]"

definition inlineFormat :: "jsstring \<Rightarrow> jsstring" where
  \<comment> \<open>the chain of replacements that \<^verbatim>\<open>formatBotText\<close> returns\<close>
  \<open>inlineFormat out =
     replace_first re_all (\<lambda>m cs. u ''<p>'' @ cap 1 cs @ u ''</p>'')
      (replace_all (chr NL) (\<lambda>m cs. u ''<br/>'')
       (replace_all re_blank_lines (\<lambda>m cs. u ''</p><p>'')
        (replace_all re_items (\<lambda>m cs. u ''<ul>'' @ m @ u ''</ul>'')
         (replace_all re_bullet (\<lambda>m cs. u ''<li>'' @ cap 1 cs @ u ''</li>'')
          (replace_all re_heading
             (\<lambda>m cs. u ''<strong style="font-size:1.05em">'' @ cap 1 cs @ u ''</strong>'')
           (replace_all re_code (\<lambda>m cs. u ''<code>'' @ cap 1 cs @ u ''</code>'')
            (replace_all re_em (\<lambda>m cs. u ''<em>'' @ cap 1 cs @ u ''</em>'')
             (replace_all re_bold (\<lambda>m cs. u ''<strong>'' @ cap 1 cs @ u ''</strong>'')
               out))))))))\<close>

definition formatBotText :: "jsstring \<Rightarrow> jsstring" where
  "formatBotText text =
     inlineFormat
       (replace_all re_table_block (\<lambda>m cs. renderMarkdownTable m)
         (dropPartialRow (escapeHtml text)))"


section \<open>Notions used in the statements\<close>

definition trimmed_line :: "jsstring \<Rightarrow> bool" where
  \<comment> \<open>a line as the line branch builds it: not empty, no white space at either end, no
      line break inside\<close>
  "trimmed_line l = (l \<noteq> [] \<and> \<not> is_ws (hd l) \<and> \<not> is_ws (last l) \<and> NL \<notin> set l)"

fun occurrences :: "jsstring \<Rightarrow> jsstring \<Rightarrow> nat" where
  \<comment> \<open>how many positions of a text a (non-empty) pattern occurs at\<close>
  "occurrences pat [] = 0"
| "occurrences pat (c # cs) =
     (if take (length pat) (c # cs) = pat then 1 else 0) + occurrences pat cs"

definition is_punct :: "cu \<Rightarrow> bool" where
  \<comment> \<open>the sentence-ending marks that \<^verbatim>\<open>truncateAtSentenceBoundary\<close> looks for: . ! ? ; :\<close>
  "is_punct c = (c = 0x2E \<or> c = 0x21 \<or> c = 0x3F \<or> c = 0x3B \<or> c = 0x3A)"

definition connector_final :: "cu \<Rightarrow> bool" where
  \<comment> \<open>the last letter of one of the connector words, in either case:
      e, l, y, o, u, n, a, r\<close>
  "connector_final c = (canon c = 0x45 \<or> canon c = 0x4C \<or> canon c = 0x59 \<or> canon c = 0x4F
      \<or> canon c = 0x55 \<or> canon c = 0x4E \<or> canon c = 0x41 \<or> canon c = 0x52)"

definition escape_unit :: "cu \<Rightarrow> jsstring" where
  \<comment> \<open>the escaping of one unit as the specification words it: the ampersand, the
      less-than sign and the greater-than sign become entities\<close>
  "escape_unit c =
     (if c = 0x26 then u ''&amp;'' else if c = 0x3C then u ''&lt;''
      else if c = 0x3E then u ''&gt;'' else [c])"

definition entities :: "jsstring list" where
  "entities = [u ''&amp;'', u ''&lt;'', u ''&gt;'']"

definition renderer_tags :: "jsstring list" where
  \<comment> \<open>every tag that \<^verbatim>\<open>renderMarkdownTable\<close> and \<^verbatim>\<open>formatBotText\<close> write\<close>
  \<open>renderer_tags =
     [u ''<table class="qb-table">'', u ''<thead>'', u ''<tr>'', u ''<th>'', u ''</th>'',
      u ''</tr>'', u ''</thead>'', u ''<tbody>'', u ''<td>'', u ''</td>'', u ''</tbody>'',
      u ''</table>'', u ''<strong>'', u ''</strong>'', u ''<em>'', u ''</em>'', u ''<code>'',
      u ''</code>'', u ''<strong style="font-size:1.05em">'', u ''<li>'', u ''</li>'',
      u ''<ul>'', u ''</ul>'', u ''<p>'', u ''</p>'', u ''<br/>'']\<close>

definition plain_unit :: "cu \<Rightarrow> bool" where
  \<comment> \<open>a unit that is none of \<^verbatim>\<open>&\<close>, \<^verbatim>\<open><\<close>, \<^verbatim>\<open>>\<close>\<close>
  "plain_unit c = (c \<noteq> 0x26 \<and> c \<noteq> 0x3C \<and> c \<noteq> 0x3E)"

definition token :: "jsstring \<Rightarrow> bool" where
  "token t = ((\<exists>c. t = [c] \<and> plain_unit c) \<or> t \<in> set renderer_tags \<or> t \<in> set entities)"

definition safe_html :: "jsstring \<Rightarrow> bool" where
  \<comment> \<open>the text is made of plain units, entities and the renderer's own tags, and of
      nothing else\<close>
  "safe_html s = (\<exists>ts. s = concat ts \<and> (\<forall>t\<in>set ts. token t))"

definition inner_first :: "cu \<Rightarrow> bool" where
  \<comment> \<open>a unit that occurs in a tag or an entity after its first unit\<close>
  "inner_first c = (\<exists>t\<in>set (renderer_tags @ entities). c \<in> set (tl t))"

definition inner_last :: "cu \<Rightarrow> bool" where
  \<comment> \<open>a unit that occurs in a tag or an entity before its last unit\<close>
  "inner_last c = (\<exists>t\<in>set (renderer_tags @ entities). c \<in> set (butlast t))"

definition cut_ok :: "jsstring \<Rightarrow> jsstring \<Rightarrow> bool" where
  \<comment> \<open>the place between the passed input \<open>b\<close> (latest unit first) and the input
      ahead \<open>r\<close> cannot lie inside a tag or an entity\<close>
  "cut_ok b r = (b = [] \<or> r = [] \<or> \<not> inner_last (hd b) \<or> \<not> inner_first (hd r))"

definition occurs_at :: "jsstring \<Rightarrow> jsstring \<Rightarrow> nat \<Rightarrow> bool" where
  "occurs_at pat s i = (take (length pat) (drop i s) = pat)"

definition spans :: "(jsstring \<Rightarrow> bool) \<Rightarrow> mstate \<Rightarrow> mstate \<Rightarrow> bool" where
  \<comment> \<open>the second state is the first one moved forward over a non-empty text with the
      property \<open>Q\<close>\<close>
  "spans Q x y =
     (case (x, y) of ((b, r, cs), (b', r', cs')) \<Rightarrow>
        \<exists>m. m \<noteq> [] \<and> r = m @ r' \<and> b' = rev m @ b \<and> Q m)"

definition keeps_safe :: "re \<Rightarrow> (jsstring \<Rightarrow> captures \<Rightarrow> jsstring) \<Rightarrow> bool" where
  \<comment> \<open>in a safe text, every match of the expression is non-empty, starts and ends
      outside the tags and entities, and is replaced by a safe text\<close>
  "keeps_safe p f =
     (\<forall>b r b2 r2 cs2.
        safe_html (rev b @ r) \<longrightarrow> (b2, r2, cs2) \<in> set (run p (b, r, [])) \<longrightarrow>
          length r2 < length r \<and> cut_ok b r \<and> cut_ok b2 r2
          \<and> safe_html (f (take (length r - length r2) r) cs2))"

definition item_text :: "jsstring \<Rightarrow> bool" where
  \<comment> \<open>how a run of list items starts and ends\<close>
  "item_text m = (hd m = 0x3C \<and> (last m = 0x3E \<or> last m = NL))"

definition rows_text :: "jsstring \<Rightarrow> bool" where
  \<comment> \<open>how a block of table rows starts and ends\<close>
  "rows_text m = (hd m = PIPE \<and> (last m = PIPE \<or> last m = NL))"





section \<open>Lemmas about the matcher\<close>

declare run.simps(8) [simp del] search.simps [simp del] replace_from.simps [simp del]

text \<open>A match only moves forward: what it passes is moved from the input ahead to the
  input behind.\<close>


lemma run_frame:
  "(b', r', cs') \<in> set (run p (b, r, cs)) \<Longrightarrow> \<exists>m. r = m @ r' \<and> b' = rev m @ b"
proof (induction p "(b, r, cs)" arbitrary: b r cs b' r' cs' rule: run.induct)
  case (1 b r cs)
  then show ?case by simp
next
  case (2 P b r cs)
  then show ?case by (auto split: list.splits if_splits)
next
  case (3 m b r cs)
  then show ?case by (auto split: list.splits if_splits)
next
  case (4 m b r cs)
  then show ?case by (auto split: list.splits if_splits)
next
  case (5 p q b r cs)
  from 5(3) obtain b1 r1 cs1 where y: "(b1, r1, cs1) \<in> set (run p (b, r, cs))"
    and z: "(b', r', cs') \<in> set (run q (b1, r1, cs1))"
    by auto
  from 5(1)[OF y] obtain m1 where m1: "r = m1 @ r1" "b1 = rev m1 @ b" by blast
  from 5(2)[OF y z] obtain m2 where m2: "r1 = m2 @ r'" "b' = rev m2 @ b1" by blast
  from m1 m2 have "r = (m1 @ m2) @ r'" "b' = rev (m1 @ m2) @ b" by simp_all
  then show ?case by blast
next
  case (6 p q b r cs)
  then show ?case by auto
next
  case (7 n p b r cs)
  then show ?case by auto
next
  case (8 g mn mx p b r cs)
  show ?case
  proof (cases "mx = Some 0")
    case True
    with 8(3) show ?thesis by (simp add: run.simps(8))
  next
    case False
    let ?more = "concat (map (\<lambda>(b', r', cs').
                     if length r' < length r \<or> (length r' = length r \<and> 0 < mn)
                     then run (Rep g (mn - 1) (dec mx) p) (b', r', cs') else [])
                   (run p (b, r, cs)))"
    from 8(3) False have "(b', r', cs') \<in> set ?more \<or> (b', r', cs') = (b, r, cs)"
      by (auto simp: run.simps(8)[of g mn mx p b r cs] Let_def split: if_splits)
    then show ?thesis
    proof
      assume "(b', r', cs') = (b, r, cs)"
      then show ?thesis by simp
    next
      assume "(b', r', cs') \<in> set ?more"
      then obtain b1 r1 cs1 where y: "(b1, r1, cs1) \<in> set (run p (b, r, cs))"
        and g: "length r1 < length r \<or> (length r1 = length r \<and> 0 < mn)"
        and z: "(b', r', cs') \<in> set (run (Rep g (mn - 1) (dec mx) p) (b1, r1, cs1))"
        by (auto split: if_splits)
      from 8(1)[OF False y] obtain m1 where m1: "r = m1 @ r1" "b1 = rev m1 @ b" by blast
      from 8(2)[OF False y refl refl g z] obtain m2 where m2: "r1 = m2 @ r'" "b' = rev m2 @ b1" by blast
      from m1 m2 have "r = (m1 @ m2) @ r'" "b' = rev (m1 @ m2) @ b" by simp_all
      then show ?thesis by blast
    qed
  qed
qed

lemma search_Some_D:
  "search p b r = Some (k, y) \<Longrightarrow>
     k \<le> length r \<and> (\<exists>ys. run p (rev (take k r) @ b, drop k r, []) = y # ys)
     \<and> (\<forall>j<k. run p (rev (take j r) @ b, drop j r, []) = [])"
proof (induction r arbitrary: b k)
  case Nil
  then show ?case by (auto simp: search.simps[of p b "[]"] split: list.splits)
next
  case (Cons c r)
  show ?case
  proof (cases "run p (b, c # r, [])")
    case Nil
    with Cons.prems obtain k' where k: "k = Suc k'" and s: "search p (c # b) r = Some (k', y)"
      by (auto simp: search.simps[of p b "c # r"] split: list.splits)
    from Cons.IH[OF s] have ih: "k' \<le> length r"
      "\<exists>ys. run p (rev (take k' r) @ c # b, drop k' r, []) = y # ys"
      "\<forall>j<k'. run p (rev (take j r) @ c # b, drop j r, []) = []" by auto
    have "\<forall>j<k. run p (rev (take j (c # r)) @ b, drop j (c # r), []) = []"
    proof (intro allI impI)
      fix j assume "j < k"
      show "run p (rev (take j (c # r)) @ b, drop j (c # r), []) = []"
      proof (cases j)
        case 0
        with Nil show ?thesis by simp
      next
        case (Suc j')
        with \<open>j < k\<close> k have "j' < k'" by simp
        with ih(3) Suc show ?thesis by simp
      qed
    qed
    with ih k show ?thesis by simp
  next
    case (Cons y' ys)
    with Cons.prems have "k = 0" "y = y'" by (auto simp: search.simps[of p b "c # r"])
    with Cons show ?thesis by simp
  qed
qed

lemma search_None_D:
  "search p b r = None \<Longrightarrow> j \<le> length r \<Longrightarrow> run p (rev (take j r) @ b, drop j r, []) = []"
proof (induction r arbitrary: b j)
  case Nil
  then show ?case by (auto simp: search.simps[of p b "[]"] split: list.splits)
next
  case (Cons c r)
  from Cons.prems(1) have n: "run p (b, c # r, []) = []" and s: "search p (c # b) r = None"
    by (auto simp: search.simps[of p b "c # r"] split: list.splits)
  show ?case
  proof (cases j)
    case 0
    with n show ?thesis by simp
  next
    case (Suc j')
    with Cons.prems(2) have "j' \<le> length r" by simp
    from Cons.IH[OF s this] Suc show ?thesis by simp
  qed
qed

lemma search_NoneI:
  "(\<And>j. j \<le> length r \<Longrightarrow> run p (rev (take j r) @ b, drop j r, []) = []) \<Longrightarrow> search p b r = None"
proof (induction r arbitrary: b)
  case Nil
  from Nil[of 0] show ?case by (simp add: search.simps[of p b "[]"])
next
  case (Cons c r)
  from Cons.prems[of 0] have n: "run p (b, c # r, []) = []" by simp
  have "search p (c # b) r = None"
  proof (rule Cons.IH)
    fix j assume "j \<le> length r"
    with Cons.prems[of "Suc j"] show "run p (rev (take j r) @ c # b, drop j r, []) = []" by simp
  qed
  with n show ?case by (simp add: search.simps[of p b "c # r"])
qed

lemma search_frame:
  assumes "search p b r = Some (k, (b2, r2, cs2))"
  shows "k \<le> length r \<and> (\<exists>m. drop k r = m @ r2 \<and> b2 = rev m @ rev (take k r) @ b)"
proof -
  from search_Some_D[OF assms] obtain ys where k: "k \<le> length r"
    and r: "run p (rev (take k r) @ b, drop k r, []) = (b2, r2, cs2) # ys" by blast
  then have "(b2, r2, cs2) \<in> set (run p (rev (take k r) @ b, drop k r, []))" by simp
  from run_frame[OF this] k show ?thesis by blast
qed

lemma replace_first_no_match: "\<not> test p s \<Longrightarrow> replace_first p f s = s"
  by (auto simp: test_def replace_first_def split: option.splits)

subsection \<open>Trimming\<close>

lemma trimEnd_decomp: "\<exists>x. s = trimEnd s @ x \<and> (\<forall>c\<in>set x. is_ws c)"
proof -
  have "rev (rev s) = rev (takeWhile is_ws (rev s) @ dropWhile is_ws (rev s))"
    by (simp only: takeWhile_dropWhile_id)
  then have "s = trimEnd s @ rev (takeWhile is_ws (rev s))"
    by (simp only: trimEnd_def rev_append rev_rev_ident)
  moreover have "\<forall>c\<in>set (rev (takeWhile is_ws (rev s))). is_ws c"
    by (auto dest: set_takeWhileD)
  ultimately show ?thesis by blast
qed

lemma trimEnd_take: "trimEnd s = take (length (trimEnd s)) s"
proof -
  from trimEnd_decomp[of s] obtain x where "s = trimEnd s @ x" by blast
  then have "take (length (trimEnd s)) s = take (length (trimEnd s)) (trimEnd s @ x)" by simp
  then show ?thesis by simp
qed

lemma length_trimEnd: "length (trimEnd s) \<le> length s"
  by (simp add: trimEnd_def length_dropWhile_le[of is_ws "rev s", simplified])

lemma trimEnd_last: "trimEnd s \<noteq> [] \<Longrightarrow> \<not> is_ws (last (trimEnd s))"
  by (simp add: trimEnd_def last_rev hd_dropWhile)

lemma trimEnd_id: "s = [] \<or> \<not> is_ws (last s) \<Longrightarrow> trimEnd s = s"
  by (cases s rule: rev_cases) (auto simp: trimEnd_def)

lemma trimEnd_Nil_iff: "trimEnd s = [] \<longleftrightarrow> (\<forall>c\<in>set s. is_ws c)"
  by (auto simp: trimEnd_def dropWhile_eq_Nil_conv)

lemma trimEnd_append:
  "trimEnd (a @ b) = (if trimEnd b = [] then trimEnd a else a @ trimEnd b)"
proof (cases "trimEnd b = []")
  case True
  then have "\<forall>c\<in>set (rev b). is_ws c" by (simp add: trimEnd_Nil_iff)
  then have "dropWhile is_ws (rev b @ rev a) = dropWhile is_ws (rev a)"
    by (intro dropWhile_append2) auto
  with True show ?thesis by (simp add: trimEnd_def)
next
  case False
  then obtain c where "c \<in> set (rev b)" "\<not> is_ws c" by (auto simp: trimEnd_Nil_iff)
  then have "dropWhile is_ws (rev b @ rev a) = dropWhile is_ws (rev b) @ rev a"
    by (simp add: dropWhile_append1)
  with False show ?thesis by (auto simp: trimEnd_def)
qed

lemma trimStart_id: "s = [] \<or> \<not> is_ws (hd s) \<Longrightarrow> trimStart s = s"
  by (cases s) (auto simp: trimStart_def)

lemma trim_via_trimEnd: "s = [] \<or> \<not> is_ws (hd s) \<Longrightarrow> trim s = trimEnd s"
  by (simp add: trim_def trimStart_id)

lemma trimStart_hd: "trimStart s \<noteq> [] \<Longrightarrow> \<not> is_ws (hd (trimStart s))"
  by (simp add: trimStart_def hd_dropWhile)

lemma trimEnd_hd: "trimEnd s \<noteq> [] \<Longrightarrow> hd (trimEnd s) = hd s"
proof -
  assume n: "trimEnd s \<noteq> []"
  from trimEnd_decomp[of s] obtain x where "s = trimEnd s @ x" by blast
  then have "hd s = hd (trimEnd s @ x)" by simp
  with n show ?thesis by simp
qed

lemma trim_hd_last: "trim s \<noteq> [] \<Longrightarrow> \<not> is_ws (hd (trim s)) \<and> \<not> is_ws (last (trim s))"
proof -
  assume n: "trim s \<noteq> []"
  then have m: "trimStart s \<noteq> []" by (auto simp: trim_def trimEnd_def)
  from n have "hd (trim s) = hd (trimStart s)" by (simp add: trim_def trimEnd_hd)
  with trimStart_hd[OF m] n show ?thesis by (simp add: trim_def trimEnd_last)
qed

lemma trim_id: "s = [] \<or> (\<not> is_ws (hd s) \<and> \<not> is_ws (last s)) \<Longrightarrow> trim s = s"
  by (auto simp: trim_via_trimEnd trimEnd_id)

lemma set_trimEnd: "set (trimEnd s) \<subseteq> set s"
  by (auto simp: trimEnd_def dest: set_dropWhileD)

lemma set_trim: "set (trim s) \<subseteq> set s"
  using set_trimEnd[of "trimStart s"] by (auto simp: trim_def trimStart_def dest: set_dropWhileD)

lemma trim_all_ws: "(\<forall>c\<in>set s. is_ws c) \<Longrightarrow> trim s = []"
  by (auto simp: trim_def trimStart_def trimEnd_def dropWhile_eq_Nil_conv dest: set_dropWhileD)

subsection \<open>Splitting and joining\<close>

lemma split_on_nonempty: "split_on d s \<noteq> []"
  by (induction s) (auto split: list.splits)

lemma split_on_no_sep: "l \<in> set (split_on d s) \<Longrightarrow> d \<notin> set l"
  by (induction s arbitrary: l) (auto split: list.splits if_splits)

lemma split_on_no_sep_id: "d \<notin> set l \<Longrightarrow> split_on d l = [l]"
  by (induction l) auto

lemma split_on_append_sep: "d \<notin> set l \<Longrightarrow> split_on d (l @ d # x) = l # split_on d x"
  by (induction l) auto

lemma join_split: "join [d] (split_on d s) = s"
proof (induction s)
  case Nil
  show ?case by simp
next
  case (Cons c s)
  obtain p ps where sp: "split_on d s = p # ps"
    using split_on_nonempty[of d s] by (cases "split_on d s") auto
  show ?case
  proof (cases "c = d")
    case True
    with Cons sp show ?thesis by simp
  next
    case False
    with Cons sp show ?thesis by (cases ps) auto
  qed
qed

lemma split_on_snoc:
  "c \<noteq> d \<Longrightarrow> split_on d (s @ [c]) = butlast (split_on d s) @ [last (split_on d s) @ [c]]"
proof (induction s)
  case Nil
  then show ?case by simp
next
  case (Cons a s)
  obtain p ps where sp: "split_on d s = p # ps"
    using split_on_nonempty[of d s] by (cases "split_on d s") auto
  obtain q qs where sq: "split_on d (s @ [c]) = q # qs"
    using split_on_nonempty[of d "s @ [c]"] by (cases "split_on d (s @ [c])") auto
  from Cons sp sq show ?case by (cases ps) (auto split: if_splits)
qed

subsection \<open>The dangling connector\<close>

lemma run_Seq_iff:
  "y \<in> set (run (Seq p q) st) \<longleftrightarrow> (\<exists>x\<in>set (run p st). y \<in> set (run q x))"
  by simp

lemma run_Eol_False_end: "(b', r', cs') \<in> set (run (Eol False) st) \<Longrightarrow> r' = []"
  by (cases st) (auto split: list.splits)

lemma connector_run_end:
  assumes "(b', r', cs') \<in> set (run re_connector st)"
  shows "r' = []"
proof -
  from assms obtain x y where "(b', r', cs') \<in> set (run (Eol False) y)"
    unfolding re_connector_def seqs.simps run_Seq_iff by blast
  then show ?thesis by (rule run_Eol_False_end)
qed

lemma trimDanglingConnector_shape: "\<exists>k. trimDanglingConnector s = trim (take k s)"
proof (cases "search re_connector [] s")
  case None
  then have "trimDanglingConnector s = trim (take (length s) s)"
    by (simp add: trimDanglingConnector_def replace_first_def)
  then show ?thesis by blast
next
  case (Some a)
  then obtain k b2 r2 cs2 where s: "search re_connector [] s = Some (k, (b2, r2, cs2))"
    by (cases a) auto
  from search_Some_D[OF s] have "(b2, r2, cs2) \<in> set (run re_connector (rev (take k s) @ [], drop k s, []))"
    by auto
  then have "r2 = []" by (rule connector_run_end)
  with s have "trimDanglingConnector s = trim (take k s)"
    by (simp add: trimDanglingConnector_def replace_first_def)
  then show ?thesis by blast
qed

lemma tdc_take:
  assumes "c = [] \<or> \<not> is_ws (hd c)"
  shows "\<exists>m\<le>n. trimDanglingConnector (take n c) = trimEnd (take m c)"
proof -
  from trimDanglingConnector_shape[of "take n c"] obtain k
    where k: "trimDanglingConnector (take n c) = trim (take k (take n c))" by blast
  have t: "take k (take n c) = take (min k n) c" by (simp add: min.commute)
  have "take (min k n) c = [] \<or> \<not> is_ws (hd (take (min k n) c))"
    using assms by (cases c; cases "min k n") auto
  then have "trim (take (min k n) c) = trimEnd (take (min k n) c)" by (rule trim_via_trimEnd)
  with k t have "trimDanglingConnector (take n c) = trimEnd (take (min k n) c)" by simp
  moreover have "min k n \<le> n" by simp
  ultimately show ?thesis by blast
qed

lemma truncate_shape:
  assumes "c = [] \<or> \<not> is_ws (hd c)"
  shows "\<exists>m\<le>mx. truncateAtSentenceBoundary c mx = trimEnd (take m c)
              \<or> truncateAtSentenceBoundary c mx = trimEnd (take m c) @ [ELLIPSIS]"
proof (cases "length c \<le> mx")
  case True
  from tdc_take[OF assms, of mx] True show ?thesis
    by (auto simp: truncateAtSentenceBoundary_def)
next
  case False
  define chunk where "chunk = trimEnd (take mx c)"
  define k1 where "k1 = length chunk"
  have "chunk = take k1 (take mx c)"
    unfolding chunk_def k1_def by (rule trimEnd_take)
  moreover have "k1 \<le> mx"
    using length_trimEnd[of "take mx c"] by (simp add: k1_def chunk_def)
  ultimately have chunk: "chunk = take k1 c" by (simp add: min_absorb1)
  have tk: "\<exists>m\<le>mx. trimDanglingConnector (take n chunk) = trimEnd (take m c)" for n
  proof -
    have "take n chunk = take (min n k1) c" by (simp add: chunk)
    moreover from tdc_take[OF assms, of "min n k1"] obtain m where
      "m \<le> min n k1" "trimDanglingConnector (take (min n k1) c) = trimEnd (take m c)" by blast
    ultimately have "m \<le> mx \<and> trimDanglingConnector (take n chunk) = trimEnd (take m c)"
      using \<open>k1 \<le> mx\<close> by simp
    then show ?thesis by blast
  qed
  have tc: "\<exists>m\<le>mx. trimDanglingConnector chunk = trimEnd (take m c)"
    using tk[of k1] by (simp add: chunk)
  from False have "truncateAtSentenceBoundary c mx =
      (if int (sentence_floor mx) \<le> lastPunctuationOf chunk
       then trimDanglingConnector (take (nat (lastPunctuationOf chunk + 1)) chunk)
       else if 0 < lastIndexOf SPACE chunk
            then trimDanglingConnector (take (nat (lastIndexOf SPACE chunk)) chunk) @ [ELLIPSIS]
            else trimDanglingConnector chunk @ [ELLIPSIS])"
    by (simp add: truncateAtSentenceBoundary_def chunk_def Let_def)
  with tk[of "nat (lastPunctuationOf chunk + 1)"] tk[of "nat (lastIndexOf SPACE chunk)"] tc
  show ?thesis by (auto split: if_splits)
qed

subsection \<open>The compacted lines\<close>

lemma trim_trimmed_line: "trimmed_line l \<Longrightarrow> trim l = l"
  by (simp add: trimmed_line_def trim_id)

lemma compact_lines_trimmed:
  assumes "l \<in> set (take n (filter (\<lambda>l. l \<noteq> []) (map trim (split_on NL w))))"
  shows "trimmed_line l"
proof -
  from assms have "l \<in> set (filter (\<lambda>l. l \<noteq> []) (map trim (split_on NL w)))"
    by (rule in_set_takeD)
  then obtain x where x: "x \<in> set (split_on NL w)" "l = trim x" "l \<noteq> []" by auto
  from x(1) have "NL \<notin> set x" by (rule split_on_no_sep)
  with set_trim[of x] x(2) have "NL \<notin> set l" by auto
  with x trim_hd_last[of x] show ?thesis by (simp add: trimmed_line_def)
qed

lemma join_hd: "\<forall>l\<in>set ls. trimmed_line l \<Longrightarrow> join [NL] ls = [] \<or> \<not> is_ws (hd (join [NL] ls))"
  by (induction "[NL]" ls rule: join.induct) (auto simp: trimmed_line_def)

lemma compact_hd: "compactLines w = [] \<or> \<not> is_ws (hd (compactLines w))"
  unfolding compactLines_def by (rule join_hd) (auto intro: compact_lines_trimmed)

lemma prefix_line:
  assumes "trimmed_line l" and "q = trimEnd (take k l)" and "q \<noteq> []"
  shows "split_on NL q = [q] \<and> trimmed_line q"
proof -
  have "set q \<subseteq> set l" using set_trimEnd[of "take k l"] set_take_subset[of k l] assms(2) by auto
  with assms(1) have nl: "NL \<notin> set q" by (auto simp: trimmed_line_def)
  from assms(2,3) have "hd q = hd (take k l)" by (simp add: trimEnd_hd)
  moreover from assms(2,3) have "take k l \<noteq> []" by (cases "take k l") (auto simp: trimEnd_def)
  ultimately have "hd q = hd l" by (cases l; cases k) auto
  moreover from assms(2,3) have "\<not> is_ws (last q)" by (simp add: trimEnd_last)
  ultimately show ?thesis using nl assms(1,3)
    by (simp add: split_on_no_sep_id trimmed_line_def)
qed

lemma lines_of_prefix:
  assumes "\<forall>l\<in>set ls. trimmed_line l"
  shows "trimEnd (take k (join [NL] ls)) = []
       \<or> (\<forall>l\<in>set (split_on NL (trimEnd (take k (join [NL] ls)))). trimmed_line l)"
  using assms
proof (induction "[NL]" ls arbitrary: k rule: join.induct)
  case 1
  show ?case by (simp add: trimEnd_def)
next
  case (2 p)
  then have "trimmed_line p" by simp
  from prefix_line[OF this refl] show ?case by auto
next
  case (3 p q ps)
  then have p: "trimmed_line p" by simp
  let ?J = "join [NL] (q # ps)"
  show ?case
  proof (cases "k \<le> length p")
    case True
    then have "take k (join [NL] (p # q # ps)) = take k p" by simp
    with prefix_line[OF p refl, of k] show ?thesis by auto
  next
    case False
    then obtain k' where k': "k - length p = Suc k'" by (cases "k - length p") auto
    with False have tk: "take k (join [NL] (p # q # ps)) = p @ NL # take k' ?J" by simp
    from p have pe: "trimEnd p = p" by (simp add: trimmed_line_def trimEnd_id)
    from p have nl: "NL \<notin> set p" by (simp add: trimmed_line_def)
    have ws: "is_ws NL" by (simp add: is_ws_def)
    show ?thesis
    proof (cases "trimEnd (take k' ?J) = []")
      case True
      then have "trimEnd (NL # take k' ?J) = []"
        using ws by (simp add: trimEnd_Nil_iff)
      with tk pe have "trimEnd (take k (join [NL] (p # q # ps))) = p"
        by (simp add: trimEnd_append[of p])
      with p nl show ?thesis by (simp add: split_on_no_sep_id)
    next
      case False
      then have "trimEnd (NL # take k' ?J) = NL # trimEnd (take k' ?J)"
        using trimEnd_append[of "[NL]" "take k' ?J"] by simp
      with tk False have e: "trimEnd (take k (join [NL] (p # q # ps))) = p @ NL # trimEnd (take k' ?J)"
        by (simp add: trimEnd_append[of p])
      from 3 have "\<forall>l\<in>set (q # ps). trimmed_line l" by simp
      from "3.hyps"[OF this, of k'] False
      have "\<forall>l\<in>set (split_on NL (trimEnd (take k' ?J))). trimmed_line l" by simp
      with e p nl show ?thesis by (simp add: split_on_append_sep)
    qed
  qed
qed

lemma lines_with_ellipsis:
  assumes "q = [] \<or> (\<forall>l\<in>set (split_on NL q). trimmed_line l)"
  shows "\<forall>l\<in>set (split_on NL (q @ [ELLIPSIS])). trimmed_line l"
proof -
  have e: "\<not> is_ws ELLIPSIS" by (simp add: is_ws_def)
  have s: "split_on NL (q @ [ELLIPSIS]) = butlast (split_on NL q) @ [last (split_on NL q) @ [ELLIPSIS]]"
    by (rule split_on_snoc) simp
  show ?thesis
  proof (cases "q = []")
    case True
    with e show ?thesis by (simp add: trimmed_line_def)
  next
    case False
    with assms have a: "\<forall>l\<in>set (split_on NL q). trimmed_line l" by simp
    have ne: "split_on NL q \<noteq> []" by (rule split_on_nonempty)
    then have "last (split_on NL q) \<in> set (split_on NL q)" by simp
    with a have "trimmed_line (last (split_on NL q))" by blast
    then have "trimmed_line (last (split_on NL q) @ [ELLIPSIS])"
      using e by (simp add: trimmed_line_def)
    moreover have "\<forall>l\<in>set (butlast (split_on NL q)). trimmed_line l"
      using a by (auto dest: in_set_butlastD)
    ultimately show ?thesis by (simp add: s)
  qed
qed

lemma line_mode_out:
  "\<not> hasTable (withoutFillerOpeners text) \<Longrightarrow>
   makeConciseReply text = truncateAtSentenceBoundary (compactLines (withoutFillerOpeners text)) 520"
  by (simp add: makeConciseReply_def Let_def MAX_RESPONSE_CHARS_def)

lemma line_mode_shape:
  assumes "\<not> hasTable (withoutFillerOpeners text)"
  shows "\<exists>m\<le>520. makeConciseReply text = trimEnd (take m (compactLines (withoutFillerOpeners text)))
           \<or> makeConciseReply text = trimEnd (take m (compactLines (withoutFillerOpeners text))) @ [ELLIPSIS]"
  using truncate_shape[OF compact_hd, of 520 "withoutFillerOpeners text"] line_mode_out[OF assms]
  by simp

lemma join_last:
  "\<forall>l\<in>set ls. trimmed_line l \<Longrightarrow> ls \<noteq> [] \<Longrightarrow>
     join [NL] ls \<noteq> [] \<and> \<not> is_ws (last (join [NL] ls))"
  by (induction "[NL]" ls rule: join.induct) (auto simp: trimmed_line_def)

lemma trimEnd_take_take: "\<exists>n\<le>m. trimEnd (take m c) = take n c"
proof -
  have "trimEnd (take m c) = take (length (trimEnd (take m c))) (take m c)" by (rule trimEnd_take)
  moreover have "length (trimEnd (take m c)) \<le> m"
    using length_trimEnd[of "take m c"] by simp
  ultimately have "trimEnd (take m c) = take (length (trimEnd (take m c))) c" by (simp add: min_absorb1)
  with \<open>length (trimEnd (take m c)) \<le> m\<close> show ?thesis by blast
qed

text \<open>
  C2. In line mode (the reply, after the filler openers are stripped and it is trimmed, has
  no table row) the output is a prefix of at most 520 units of the first six non-empty
  trimmed lines joined by line breaks, followed by at most one ellipsis unit.
\<close>

theorem C2_line_mode_bounded:
  assumes "\<not> hasTable (withoutFillerOpeners text)"
  shows "(\<exists>n\<le>520.
            makeConciseReply text =
              take n (join [NL] (take 6 (filter (\<lambda>l. l \<noteq> [])
                        (map trim (split_on NL (withoutFillerOpeners text))))))
          \<or> makeConciseReply text =
              take n (join [NL] (take 6 (filter (\<lambda>l. l \<noteq> [])
                        (map trim (split_on NL (withoutFillerOpeners text)))))) @ [ELLIPSIS])
         \<and> length (makeConciseReply text) \<le> 521"
proof -
  let ?c = "compactLines (withoutFillerOpeners text)"
  from line_mode_shape[OF assms] obtain m where m: "m \<le> 520"
    "makeConciseReply text = trimEnd (take m ?c) \<or> makeConciseReply text = trimEnd (take m ?c) @ [ELLIPSIS]"
    by blast
  from trimEnd_take_take[of m ?c] obtain n where n: "n \<le> m" "trimEnd (take m ?c) = take n ?c" by blast
  from m n have a: "n \<le> 520" and
    b: "makeConciseReply text = take n ?c \<or> makeConciseReply text = take n ?c @ [ELLIPSIS]"
    by auto
  from a b have "length (makeConciseReply text) \<le> 521" by auto
  with a b show ?thesis
    unfolding compactLines_def MAX_RESPONSE_LINES_def by blast
qed

theorem C2_line_mode_bounded_witness:
  "\<not> hasTable (withoutFillerOpeners (u ''Mira, esto es interesante. El oro es denso y''))
   \<and> makeConciseReply (u ''Mira, esto es interesante. El oro es denso y'') = u ''El oro es denso''
   \<and> length (makeConciseReply (u ''Mira, esto es interesante. El oro es denso y'')) \<le> 521"
proof -
  have h: "\<not> hasTable (withoutFillerOpeners (u ''Mira, esto es interesante. El oro es denso y''))"
    by code_simp
  have e: "makeConciseReply (u ''Mira, esto es interesante. El oro es denso y'') = u ''El oro es denso''"
    by code_simp
  from C2_line_mode_bounded[OF h] h e show ?thesis by simp
qed

text \<open>
  C10. In line mode the output has no white space at either end, and unless it is empty
  every line of it (the pieces between line breaks) is non-empty and trimmed.
\<close>

theorem C10_line_mode_lines_trimmed:
  assumes "\<not> hasTable (withoutFillerOpeners text)"
  shows "trim (makeConciseReply text) = makeConciseReply text
       \<and> (makeConciseReply text = []
          \<or> (\<forall>l\<in>set (split_on NL (makeConciseReply text)). l \<noteq> [] \<and> trim l = l))"
proof -
  let ?w = "withoutFillerOpeners text"
  let ?c = "compactLines ?w"
  let ?ls = "take MAX_RESPONSE_LINES (filter (\<lambda>l. l \<noteq> []) (map trim (split_on NL ?w)))"
  have ls: "\<forall>l\<in>set ?ls. trimmed_line l" by (auto intro: compact_lines_trimmed)
  from line_mode_shape[OF assms] obtain m where
    m: "makeConciseReply text = trimEnd (take m ?c) \<or> makeConciseReply text = trimEnd (take m ?c) @ [ELLIPSIS]"
    by blast
  define q where "q = trimEnd (take m ?c)"
  have q: "q = [] \<or> (\<forall>l\<in>set (split_on NL q). trimmed_line l)"
    unfolding q_def compactLines_def by (rule lines_of_prefix[OF ls])
  have lines: "\<forall>l\<in>set (split_on NL (makeConciseReply text)). trimmed_line l" if "makeConciseReply text \<noteq> []"
    using m that q lines_with_ellipsis[OF q] by (auto simp: q_def)
  have ends: "trim (makeConciseReply text) = makeConciseReply text"
  proof (cases "makeConciseReply text = []")
    case True
    then show ?thesis by (simp add: trim_def trimStart_def trimEnd_def)
  next
    case False
    let ?o = "makeConciseReply text"
    obtain p ps where sp: "split_on NL ?o = p # ps"
      using split_on_nonempty[of NL ?o] by (cases "split_on NL ?o") auto
    from lines[OF False] have tl: "\<forall>l\<in>set (split_on NL ?o). trimmed_line l" .
    have j: "join [NL] (split_on NL ?o) = ?o" by (rule join_split)
    have "\<not> is_ws (hd ?o)"
      using join_hd[OF tl] j False by simp
    moreover have "\<not> is_ws (last ?o)"
      using join_last[OF tl] sp j by simp
    ultimately show ?thesis by (simp add: trim_id)
  qed
  from lines have "makeConciseReply text = []
     \<or> (\<forall>l\<in>set (split_on NL (makeConciseReply text)). l \<noteq> [] \<and> trim l = l)"
    by (auto simp: trim_trimmed_line trimmed_line_def)
  with ends show ?thesis by simp
qed

theorem C10_line_mode_lines_trimmed_witness:
  "\<not> hasTable (withoutFillerOpeners (u ''  uno  \<newline>\<newline> dos y  \<newline>''))
   \<and> makeConciseReply (u ''  uno  \<newline>\<newline> dos y  \<newline>'') = u ''uno\<newline>dos''
   \<and> trim (u ''uno\<newline>dos'') = u ''uno\<newline>dos''
   \<and> split_on NL (u ''uno\<newline>dos'') = [u ''uno'', u ''dos'']"
proof -
  have h: "\<not> hasTable (withoutFillerOpeners (u ''  uno  \<newline>\<newline> dos y  \<newline>''))"
    by code_simp
  have e: "makeConciseReply (u ''  uno  \<newline>\<newline> dos y  \<newline>'') = u ''uno\<newline>dos''"
    by code_simp
  have s: "split_on NL (u ''uno\<newline>dos'') = [u ''uno'', u ''dos'']"
    by code_simp
  from C10_line_mode_lines_trimmed[OF h] h e s show ?thesis by simp
qed

lemma makeConciseReply_sentinel: "makeConciseReply sentinel = sentinel"
  by code_simp

lemma makeConciseReply_empty: "makeConciseReply [] = []"
  by code_simp

text \<open>
  C6. An empty reply of the completion service never reaches \<^verbatim>\<open>makeConciseReply\<close> as such:
  \<^verbatim>\<open>sendMessage\<close> trims the content and puts the placeholder "(sin respuesta)" in its place
  when nothing is left (or when there is no content at all), and the shaper returns the
  placeholder unchanged. So an empty or white-space-only reply is shaped to the
  placeholder, which is not the empty string. Every function of the model is total, as
  the source has no throwing path.
\<close>

theorem C6_empty_reply_gives_sentinel:
  "shapedReply (Some []) = u ''(sin respuesta)''
   \<and> shapedReply None = u ''(sin respuesta)''
   \<and> (\<forall>s. (\<forall>c\<in>set s. is_ws c) \<longrightarrow> shapedReply (Some s) = u ''(sin respuesta)'')
   \<and> u ''(sin respuesta)'' \<noteq> []"
proof -
  have a: "shapedReply None = sentinel"
    by (simp add: shapedReply_def rawReplyOf_def makeConciseReply_sentinel)
  have b: "shapedReply (Some s) = sentinel" if "\<forall>c\<in>set s. is_ws c" for s
    using trim_all_ws[OF that]
    by (simp add: shapedReply_def rawReplyOf_def makeConciseReply_sentinel)
  from b[of "[]"] have c: "shapedReply (Some []) = sentinel" by simp
  have "u ''(sin respuesta)'' \<noteq> []" by (simp add: u_def)
  with a b c show ?thesis by (simp add: sentinel_def)
qed

theorem C6_empty_reply_gives_sentinel_witness:
  "is_ws SPACE \<and> is_ws NL \<and> is_ws 0x09
   \<and> shapedReply (Some [SPACE, NL, 0x09]) = u ''(sin respuesta)''"
proof -
  have w: "is_ws SPACE" "is_ws NL" "is_ws 0x09" by (simp_all add: is_ws_def)
  then have h: "\<forall>c\<in>set [SPACE, NL, 0x09]. is_ws c" by simp
  from C6_empty_reply_gives_sentinel h w show ?thesis by blast
qed

text \<open>
  C9. The claim fails: "a y de" has no filler opener, one line and six units, and is
  itself what shaping "a y de y" gives, yet shaping it gives "a y" and shaping that gives
  "a", because only one dangling connector is trimmed per call.
\<close>

theorem C9_idempotence_counterexample:
  "\<not> test re_filler1 (u ''a y de'') \<and> \<not> test re_filler2 (u ''a y de'')
   \<and> length (split_on NL (u ''a y de'')) \<le> 6 \<and> length (u ''a y de'') \<le> 520
   \<and> makeConciseReply (u ''a y de y'') = u ''a y de''
   \<and> makeConciseReply (u ''a y de'') = u ''a y''
   \<and> makeConciseReply (makeConciseReply (u ''a y de'')) = u ''a''
   \<and> makeConciseReply (makeConciseReply (u ''a y de'')) \<noteq> makeConciseReply (u ''a y de'')"
  by code_simp

text \<open>
  C9, amended. A reply with no filler opener, no table row, at most six lines that are
  all non-empty and trimmed, at most 520 units and no dangling connector at its end is
  returned unchanged, so shaping it twice gives the same as shaping it once.
\<close>

theorem C9_shaped_reply_is_fixed:
  assumes "\<not> test re_filler1 s" and "\<not> test re_filler2 s" and "\<not> hasTable s"
    and "s = [] \<or> (\<forall>l\<in>set (split_on NL s). l \<noteq> [] \<and> trim l = l)"
    and "length (split_on NL s) \<le> 6" and "length s \<le> 520"
    and "\<not> test re_connector s"
  shows "makeConciseReply s = s \<and> makeConciseReply (makeConciseReply s) = makeConciseReply s"
proof -
  have "makeConciseReply s = s"
  proof (cases "s = []")
    case True
    then show ?thesis by (simp add: makeConciseReply_empty)
  next
    case False
    with assms(4) have good: "\<forall>l\<in>set (split_on NL s). l \<noteq> [] \<and> trim l = l" by simp
    have tl: "\<forall>l\<in>set (split_on NL s). trimmed_line l"
    proof
      fix l assume l: "l \<in> set (split_on NL s)"
      with good have "l \<noteq> []" "trim l = l" by auto
      with trim_hd_last[of l] split_on_no_sep[OF l] show "trimmed_line l"
        by (simp add: trimmed_line_def)
    qed
    have j: "join [NL] (split_on NL s) = s" by (rule join_split)
    have ne: "split_on NL s \<noteq> []" by (rule split_on_nonempty)
    from join_hd[OF tl] j False have "\<not> is_ws (hd s)" by simp
    moreover from join_last[OF tl ne] j have "\<not> is_ws (last s)" by simp
    ultimately have ts: "trim s = s" by (simp add: trim_id)
    with assms(1,2) have w: "withoutFillerOpeners s = s"
      by (simp add: withoutFillerOpeners_def replace_first_no_match)
    have "map trim (split_on NL s) = split_on NL s"
      using good by (simp add: map_idI)
    moreover have "filter (\<lambda>l. l \<noteq> []) (split_on NL s) = split_on NL s"
      using good by simp
    ultimately have c: "compactLines s = s"
      using assms(5) j by (simp add: compactLines_def MAX_RESPONSE_LINES_def)
    have "trimDanglingConnector s = s"
      using assms(7) ts by (simp add: trimDanglingConnector_def replace_first_no_match)
    with assms(3,6) w c show ?thesis
      by (simp add: makeConciseReply_def truncateAtSentenceBoundary_def MAX_RESPONSE_CHARS_def)
  qed
  then show ?thesis by simp
qed

theorem C9_shaped_reply_is_fixed_witness:
  "\<not> test re_filler1 (u ''El oro es denso.\<newline>- Au, Z = 79'')
   \<and> \<not> test re_filler2 (u ''El oro es denso.\<newline>- Au, Z = 79'')
   \<and> \<not> hasTable (u ''El oro es denso.\<newline>- Au, Z = 79'')
   \<and> split_on NL (u ''El oro es denso.\<newline>- Au, Z = 79'')
       = [u ''El oro es denso.'', u ''- Au, Z = 79'']
   \<and> trim (u ''El oro es denso.'') = u ''El oro es denso.''
   \<and> trim (u ''- Au, Z = 79'') = u ''- Au, Z = 79''
   \<and> length (u ''El oro es denso.\<newline>- Au, Z = 79'') \<le> 520
   \<and> \<not> test re_connector (u ''El oro es denso.\<newline>- Au, Z = 79'')
   \<and> makeConciseReply (u ''El oro es denso.\<newline>- Au, Z = 79'')
       = u ''El oro es denso.\<newline>- Au, Z = 79''"
proof -
  let ?s = "u ''El oro es denso.\<newline>- Au, Z = 79''"
  have h1: "\<not> test re_filler1 ?s"
    by code_simp
  have h2: "\<not> test re_filler2 ?s"
    by code_simp
  have h3: "\<not> hasTable ?s"
    by code_simp
  have sp: "split_on NL ?s = [u ''El oro es denso.'', u ''- Au, Z = 79'']"
    by code_simp
  have t1: "trim (u ''El oro es denso.'') = u ''El oro es denso.''"
    by code_simp
  have t2: "trim (u ''- Au, Z = 79'') = u ''- Au, Z = 79''"
    by code_simp
  have n1: "u ''El oro es denso.'' \<noteq> []" "u ''- Au, Z = 79'' \<noteq> []"
    by (simp_all add: u_def)
  from sp t1 t2 n1 have h4: "\<forall>l\<in>set (split_on NL ?s). l \<noteq> [] \<and> trim l = l"
    by simp
  from sp have h5: "length (split_on NL ?s) \<le> 6"
    by simp
  have h6: "length ?s \<le> 520"
    by (simp add: u_def)
  have h7: "\<not> test re_connector ?s"
    by code_simp
  from C9_shaped_reply_is_fixed[OF h1 h2 h3 disjI2[OF h4] h5 h6 h7] h1 h2 h3 sp t1 t2 h6 h7
  show ?thesis by blast
qed

text \<open>
  C7. The step \<^verbatim>\<open>out.replace(/\n\|[^\n|]*$/m, '')\<close> carries the \<^verbatim>\<open>m\<close> flag, so its \<^verbatim>\<open>$\<close> holds
  at the end of every line: the step removes the first line after the first that starts
  with a pipe and has no other pipe, wherever it stands. In "a", "|b", "c" (a reply
  that the shaper returns unchanged) the middle line is removed.
\<close>

theorem C7_partial_row_removed_in_the_middle:
  "split_on NL (u ''a\<newline>|b\<newline>c'') = [u ''a'', u ''|b'', u ''c'']
   \<and> makeConciseReply (u ''a\<newline>|b\<newline>c'') = u ''a\<newline>|b\<newline>c''
   \<and> escapeHtml (u ''a\<newline>|b\<newline>c'') = u ''a\<newline>|b\<newline>c''
   \<and> dropPartialRow (u ''a\<newline>|b\<newline>c'') = u ''a\<newline>c''
   \<and> formatBotText (u ''a\<newline>|b\<newline>c'') = u ''<p>a<br/>c</p>''"
  by code_simp

subsection \<open>Tables written from their cells\<close>









subsection \<open>Searching\<close>

lemma search_SomeI:
  "k \<le> length r \<Longrightarrow> (\<And>j. j < k \<Longrightarrow> run p (rev (take j r) @ b, drop j r, []) = []) \<Longrightarrow>
   run p (rev (take k r) @ b, drop k r, []) = y # ys \<Longrightarrow> search p b r = Some (k, y)"
proof (induction k arbitrary: r b)
  case 0
  then show ?case by (simp add: search.simps[of p b r])
next
  case (Suc k)
  from Suc.prems(1) obtain c r' where r: "r = c # r'" by (cases r) auto
  from Suc.prems(2)[of 0] have n: "run p (b, r, []) = []" by simp
  have "search p (c # b) r' = Some (k, y)"
  proof (rule Suc.IH)
    show "k \<le> length r'" using Suc.prems(1) r by simp
    show "run p (rev (take j r') @ c # b, drop j r', []) = []" if "j < k" for j
      using Suc.prems(2)[of "Suc j"] that r by simp
    show "run p (rev (take k r') @ c # b, drop k r', []) = y # ys"
      using Suc.prems(3) r by simp
  qed
  with n r show ?case by (simp add: search.simps[of p b "c # r'"])
qed

lemma search_Bol_False_behind: "b \<noteq> [] \<Longrightarrow> search (Seq (Bol False) p) b r = None"
proof (rule search_NoneI)
  fix j assume "b \<noteq> []"
  then have "rev (take j r) @ b \<noteq> []" by simp
  then show "run (Seq (Bol False) p) (rev (take j r) @ b, drop j r, []) = []"
    by (cases "rev (take j r) @ b") auto
qed

lemma test_anchored:
  "test (Seq (Bol False) p) s \<longleftrightarrow> run (Seq (Bol False) p) ([], s, []) \<noteq> []"
proof (cases s)
  case Nil
  then show ?thesis by (auto simp: test_def search.simps[of _ "[]" "[]"] split: list.splits)
next
  case (Cons c r)
  have "search (Seq (Bol False) p) [c] r = None" by (rule search_Bol_False_behind) simp
  with Cons show ?thesis
    by (auto simp: test_def search.simps[of _ "[]" "c # r"] split: list.splits)
qed

lemma run_opt_chr_miss:
  "c \<noteq> x \<Longrightarrow> run (Rep True 0 (Some (Suc n)) (chr x)) (b, c # r, cs) = [(b, c # r, cs)]"
  by (simp add: run.simps(8) chr_def)

lemma run_lit_ci_miss:
  "canon c \<noteq> canon (of_char x) \<Longrightarrow> run (lit_ci (x # xs)) (b, c # r, cs) = []"
  by (cases xs) (simp_all add: lit_ci_def ci_def)

lemma canon_letters: "canon 0x62 = 0x42" "canon 0x6D = 0x4D"
  by (simp_all add: canon_def)

lemma filler1_no_match:
  assumes "c \<noteq> 0xA1" and "canon c \<noteq> 0x42"
  shows "\<not> test re_filler1 (c # s)"
proof -
  have "run re_filler1 ([], c # s, []) = []"
    using assms
    by (simp add: re_filler1_def run_opt_chr_miss run_lit_ci_miss canon_letters)
  then show ?thesis by (simp add: re_filler1_def test_anchored)
qed

lemma filler2_no_match:
  assumes "canon c \<noteq> 0x4D"
  shows "\<not> test re_filler2 (c # s)"
proof -
  have "run re_filler2 ([], c # s, []) = []"
    using assms
    by (simp add: re_filler2_def run_lit_ci_miss canon_letters)
  then show ?thesis by (simp add: re_filler2_def test_anchored)
qed

lemma filler_no_match_empty: "\<not> test re_filler1 [] \<and> \<not> test re_filler2 []"
  by code_simp

lemma withoutFillerOpeners_id:
  "\<not> test re_filler1 t \<Longrightarrow> \<not> test re_filler2 t \<Longrightarrow> trim t = t \<Longrightarrow> withoutFillerOpeners t = t"
  by (simp add: withoutFillerOpeners_def replace_first_no_match)

lemma hasTable_needs_pipe:
  assumes "PIPE \<notin> set w"
  shows "\<not> hasTable w"
proof -
  have "search re_table_row [] w = None"
  proof (rule search_NoneI)
    fix j
    have "PIPE \<notin> set (drop j w)" using assms by (auto dest: in_set_dropD)
    then show "run re_table_row (rev (take j w) @ [], drop j w, []) = []"
      by (cases "drop j w"; cases "rev (take j w)") (auto simp: re_table_row_def chr_def)
  qed
  then show ?thesis by (simp add: hasTable_def test_def)
qed

lemma compactLines_single:
  assumes "NL \<notin> set w" and "w \<noteq> []" and "\<not> is_ws (hd w)" and "\<not> is_ws (last w)"
  shows "compactLines w = w"
  using assms
  by (simp add: compactLines_def split_on_no_sep_id trim_id MAX_RESPONSE_LINES_def)

subsection \<open>Last indices\<close>

lemma lastIndexOf_absent: "c \<notin> set s \<Longrightarrow> lastIndexOf c s = - 1"
  by (simp add: lastIndexOf_def)

lemma length_takeWhile_stop: "c \<in> set xs \<Longrightarrow> length (takeWhile (\<lambda>x. x \<noteq> c) xs) < length xs"
  by (induction xs) auto

lemma lastIndexOf_present:
  assumes "c \<in> set s"
  shows "\<exists>i<length s. lastIndexOf c s = int i \<and> s ! i = c \<and> (\<forall>j. i < j \<and> j < length s \<longrightarrow> s ! j \<noteq> c)"
proof -
  let ?t = "takeWhile (\<lambda>x. x \<noteq> c) (rev s)"
  let ?i = "length s - 1 - length ?t"
  from assms have "c \<in> set (rev s)" by simp
  then have lt: "length ?t < length (rev s)"
    by (rule length_takeWhile_stop)
  then have i: "?i < length s" by simp
  from lt have "rev s ! length ?t = c"
    using nth_length_takeWhile[of "\<lambda>x. x \<noteq> c" "rev s"] by simp
  with lt have si: "s ! ?i = c" by (simp add: rev_nth)
  have later: "s ! j \<noteq> c" if "?i < j" "j < length s" for j
  proof -
    from that lt have k: "length s - 1 - j < length ?t" by simp
    then have "?t ! (length s - 1 - j) \<in> set ?t" by simp
    then have "?t ! (length s - 1 - j) \<noteq> c" by (auto dest: set_takeWhileD)
    moreover from k have "?t ! (length s - 1 - j) = rev s ! (length s - 1 - j)"
      by (rule takeWhile_nth)
    moreover from that have "rev s ! (length s - 1 - j) = s ! j" by (simp add: rev_nth)
    ultimately show ?thesis by simp
  qed
  from assms i si later show ?thesis by (auto simp: lastIndexOf_def)
qed

lemma lastIndexOf_eq:
  assumes "i < length s" and "s ! i = c" and "\<forall>j. i < j \<and> j < length s \<longrightarrow> s ! j \<noteq> c"
  shows "lastIndexOf c s = int i"
proof -
  from assms(1,2) have "c \<in> set s" by auto
  from lastIndexOf_present[OF this] obtain k where k: "k < length s" "lastIndexOf c s = int k"
    "s ! k = c" "\<forall>j. k < j \<and> j < length s \<longrightarrow> s ! j \<noteq> c" by blast
  have "k = i"
  proof (rule ccontr)
    assume "k \<noteq> i"
    then consider "k < i" | "i < k" by linarith
    then show False using k assms by cases auto
  qed
  with k show ?thesis by simp
qed

subsection \<open>Where the connector expression can match\<close>

lemma run_plus_miss:
  "r = [] \<or> \<not> P (hd r) \<Longrightarrow> run (Rep g (Suc n) None (Chr P)) (b, r, cs) = []"
  by (cases r) (auto simp: run.simps(8))

lemma connector_needs_ws:
  assumes "\<forall>c\<in>set s. \<not> is_ws c"
  shows "\<not> test re_connector s"
proof -
  have "search re_connector [] s = None"
  proof (rule search_NoneI)
    fix j
    have "drop j s \<noteq> [] \<Longrightarrow> hd (drop j s) \<in> set s"
      by (metis hd_in_set in_set_dropD)
    then have "drop j s = [] \<or> \<not> is_ws (hd (drop j s))" using assms by blast
    then have "run (plus ws) (rev (take j s) @ [], drop j s, []) = []"
      unfolding ws_def One_nat_def by (rule run_plus_miss)
    then show "run re_connector (rev (take j s) @ [], drop j s, []) = []"
      by (simp add: re_connector_def)
  qed
  then show ?thesis by (simp add: test_def)
qed

lemma lit_ci_run:
  "(b', r', cs') \<in> set (run (lit_ci w) (b, r, cs)) \<Longrightarrow>
     \<exists>m. r = m @ r' \<and> b' = rev m @ b \<and> map canon m = map (\<lambda>c. canon (of_char c)) w"
proof (induction w arbitrary: b r)
  case Nil
  then show ?case by (simp add: lit_ci_def)
next
  case (Cons x w)
  show ?case
  proof (cases w)
    case Nil
    with Cons.prems show ?thesis
      by (auto simp: lit_ci_def ci_def split: list.splits if_splits)
  next
    case (Cons y zs)
    with Cons.prems have "(b', r', cs') \<in> set (run (Seq (ci (of_char x)) (lit_ci w)) (b, r, cs))"
      by (simp add: lit_ci_def)
    then obtain c r1 where r: "r = c # r1" and c: "canon c = canon (of_char x)"
      and rest: "(b', r', cs') \<in> set (run (lit_ci w) (c # b, r1, cs))"
      by (auto simp: ci_def split: list.splits if_splits)
    from Cons.IH[OF rest] obtain m where m: "r1 = m @ r'" "b' = rev m @ c # b"
      "map canon m = map (\<lambda>c. canon (of_char c)) w" by blast
    from r c m have "r = (c # m) @ r' \<and> b' = rev (c # m) @ b
        \<and> map canon (c # m) = map (\<lambda>c. canon (of_char c)) (x # w)" by simp
    then show ?thesis by blast
  qed
qed

lemma lit_ci_last:
  assumes "(b', r', cs') \<in> set (run (lit_ci w) (b, r, cs))" and "w \<noteq> []"
  shows "b' \<noteq> [] \<and> canon (hd b') = canon (of_char (last w))"
proof -
  from lit_ci_run[OF assms(1)] obtain m where m: "b' = rev m @ b"
    "map canon m = map (\<lambda>c. canon (of_char c)) w" by blast
  from m(2) assms(2) have ne: "m \<noteq> []" by auto
  from m(2) have "last (map canon m) = last (map (\<lambda>c. canon (of_char c)) w)" by simp
  with ne assms(2) have "canon (last m) = canon (of_char (last w))" by (simp add: last_map)
  with m(1) ne show ?thesis by (simp add: hd_rev hd_append)
qed

lemma connector_words_last:
  assumes "(b', r', cs') \<in> set (run (alts [lit_ci ''de'', lit_ci ''del'', lit_ci ''y'', lit_ci ''e'',
             lit_ci ''o'', lit_ci ''u'', lit_ci ''con'', lit_ci ''para'', lit_ci ''por'',
             lit_ci ''en'', lit_ci ''a'', lit_ci ''que'']) (b, r, cs))"
  shows "b' \<noteq> [] \<and> connector_final (hd b')"
proof -
  from assms obtain w where w: "w \<in> {''de'', ''del'', ''y'', ''e'', ''o'', ''u'', ''con'', ''para'',
      ''por'', ''en'', ''a'', ''que''}"
    and r: "(b', r', cs') \<in> set (run (lit_ci w) (b, r, cs))"
    by auto
  from w have ne: "w \<noteq> []" by auto
  from w have "canon (of_char (last w)) \<in> {0x45, 0x4C, 0x59, 0x4F, 0x55, 0x4E, 0x41, 0x52 :: cu}"
    by (auto simp: canon_def)
  with lit_ci_last[OF r ne] show ?thesis by (auto simp: connector_final_def)
qed

lemma connector_run_last:
  assumes "(b', r', cs') \<in> set (run re_connector (b, r, cs))"
  shows "r' = [] \<and> b' \<noteq> [] \<and> connector_final (hd b')"
proof -
  from assms have e: "r' = []" by (rule connector_run_end)
  from assms obtain x1 x2 where x1: "x1 \<in> set (run (plus ws) (b, r, cs))"
    and x2: "x2 \<in> set (run (Grp 1 (alts [lit_ci ''de'', lit_ci ''del'', lit_ci ''y'', lit_ci ''e'',
             lit_ci ''o'', lit_ci ''u'', lit_ci ''con'', lit_ci ''para'', lit_ci ''por'',
             lit_ci ''en'', lit_ci ''a'', lit_ci ''que''])) x1)"
    and y: "(b', r', cs') \<in> set (run (Eol False) x2)"
    unfolding re_connector_def seqs.simps run_Seq_iff by blast
  obtain b1 r1 cs1 where x1e: "x1 = (b1, r1, cs1)" by (cases x1) auto
  from x2 x1e obtain b2 r2 cs2 where x2e: "x2 = (b2, r2, (1, rev (take (length b2 - length b1) b2)) # cs2)"
    and in2: "(b2, r2, cs2) \<in> set (run (alts [lit_ci ''de'', lit_ci ''del'', lit_ci ''y'', lit_ci ''e'',
             lit_ci ''o'', lit_ci ''u'', lit_ci ''con'', lit_ci ''para'', lit_ci ''por'',
             lit_ci ''en'', lit_ci ''a'', lit_ci ''que'']) (b1, r1, cs1))"
    by auto
  from y x2e have "b' = b2" by (auto split: list.splits if_splits)
  with connector_words_last[OF in2] e show ?thesis by simp
qed

lemma connector_match_last:
  assumes "test re_connector s"
  shows "s \<noteq> [] \<and> connector_final (last s)"
proof -
  from assms obtain k y where s: "search re_connector [] s = Some (k, y)"
    by (auto simp: test_def)
  obtain b' r' cs' where y: "y = (b', r', cs')" by (cases y) auto
  from search_Some_D[OF s] y have k: "k \<le> length s"
    and r: "(b', r', cs') \<in> set (run re_connector (rev (take k s) @ [], drop k s, []))" by auto
  from connector_run_last[OF r] have e: "r' = []" "b' \<noteq> []" "connector_final (hd b')" by auto
  from run_frame[OF r] e(1) have "b' = rev (drop k s) @ rev (take k s)" by auto
  then have "b' = rev s" by (simp flip: rev_append)
  with e show ?thesis by (auto simp: hd_rev)
qed

lemma trimDanglingConnector_id:
  "\<not> test re_connector s \<Longrightarrow> trim s = s \<Longrightarrow> trimDanglingConnector s = s"
  by (simp add: trimDanglingConnector_def replace_first_no_match)

lemma punct_not_final: "is_punct c \<Longrightarrow> \<not> connector_final c \<and> \<not> is_ws c"
  by (auto simp: is_punct_def connector_final_def canon_def is_ws_def)

lemma trimDanglingConnector_punct:
  assumes "s \<noteq> []" and "\<not> is_ws (hd s)" and "is_punct (last s)"
  shows "trimDanglingConnector s = s"
proof -
  from assms(3) have p: "\<not> connector_final (last s)" "\<not> is_ws (last s)"
    by (auto dest: punct_not_final)
  from p(1) connector_match_last[of s] have "\<not> test re_connector s" by blast
  moreover from assms(2) p(2) have "trim s = s" by (simp add: trim_id)
  ultimately show ?thesis by (rule trimDanglingConnector_id)
qed

subsection \<open>The last sentence mark\<close>

lemma lastIndexOf_punct_le:
  assumes "is_punct x" and "\<forall>j. n \<le> j \<and> j < length s \<longrightarrow> \<not> is_punct (s ! j)"
  shows "lastIndexOf x s < int n"
proof (cases "x \<in> set s")
  case True
  from lastIndexOf_present[OF this] obtain i where i: "i < length s" "lastIndexOf x s = int i"
    "s ! i = x" by blast
  with assms have "i < n" by (metis not_le_imp_less)
  with i show ?thesis by simp
next
  case False
  then show ?thesis by (simp add: lastIndexOf_absent)
qed

lemma lastPunctuationOf_low:
  assumes "\<forall>j. n \<le> j \<and> j < length s \<longrightarrow> \<not> is_punct (s ! j)"
  shows "lastPunctuationOf s < int n"
proof -
  have "lastIndexOf x s < int n" if "is_punct x" for x
    using that assms by (rule lastIndexOf_punct_le)
  then show ?thesis by (simp add: lastPunctuationOf_def is_punct_def)
qed

lemma lastPunctuationOf_eq:
  assumes "p < length s" and "is_punct (s ! p)"
    and "\<forall>j. p < j \<and> j < length s \<longrightarrow> \<not> is_punct (s ! j)"
  shows "lastPunctuationOf s = int p"
proof -
  have le: "lastIndexOf x s \<le> int p" if "is_punct x" for x
  proof -
    from assms(3) have "\<forall>j. Suc p \<le> j \<and> j < length s \<longrightarrow> \<not> is_punct (s ! j)" by auto
    from lastIndexOf_punct_le[OF that this] show ?thesis by simp
  qed
  have "\<forall>j. p < j \<and> j < length s \<longrightarrow> s ! j \<noteq> s ! p"
    using assms(2,3) by metis
  from lastIndexOf_eq[OF assms(1) refl this] have eq: "lastIndexOf (s ! p) s = int p" .
  from assms(2) consider "s ! p = 0x2E" | "s ! p = 0x21" | "s ! p = 0x3F" | "s ! p = 0x3B" | "s ! p = 0x3A"
    by (auto simp: is_punct_def)
  then show ?thesis
    using eq le[of "0x2E"] le[of "0x21"] le[of "0x3F"] le[of "0x3B"] le[of "0x3A"]
    by cases (simp_all add: lastPunctuationOf_def is_punct_def)
qed

subsection \<open>The cases of the sentence-boundary truncation\<close>

lemma trimEnd_keeps:
  assumes "i < length s" and "\<not> is_ws (s ! i)"
  shows "i < length (trimEnd s)"
proof (rule ccontr)
  assume n: "\<not> i < length (trimEnd s)"
  from trimEnd_decomp[of s] obtain x where x: "s = trimEnd s @ x" "\<forall>c\<in>set x. is_ws c" by blast
  from x(1) have "s ! i = (trimEnd s @ x) ! i" by simp
  with n have e: "s ! i = x ! (i - length (trimEnd s))" by (simp add: nth_append)
  from x(1) have "length s = length (trimEnd s) + length x"
    by (metis length_append)
  with assms(1) n have "i - length (trimEnd s) < length x" by simp
  then have "x ! (i - length (trimEnd s)) \<in> set x" by simp
  with x(2) e assms(2) show False by simp
qed

lemma chunk_hd:
  assumes "c = [] \<or> \<not> is_ws (hd c)" and "chunk = trimEnd (take n c)" and "chunk \<noteq> []"
  shows "\<not> is_ws (hd chunk)"
proof -
  from assms(2,3) have "hd chunk = hd (take n c)" by (simp add: trimEnd_hd)
  moreover from assms(2,3) have "take n c \<noteq> []" by (cases "take n c") (auto simp: trimEnd_def)
  ultimately show ?thesis using assms(1) by (cases c; cases n) auto
qed

lemma truncate_cases:
  assumes hd: "c = [] \<or> \<not> is_ws (hd c)"
    and long: "520 < length c"
    and chunk: "chunk = trimEnd (take 520 c)"
  shows "(\<forall>p. 286 \<le> p \<and> p < length chunk \<and> is_punct (chunk ! p)
             \<and> (\<forall>j. p < j \<and> j < length chunk \<longrightarrow> \<not> is_punct (chunk ! j))
           \<longrightarrow> truncateAtSentenceBoundary c 520 = take (p + 1) chunk)
       \<and> ((\<forall>j. 286 \<le> j \<and> j < length chunk \<longrightarrow> \<not> is_punct (chunk ! j)) \<longrightarrow>
            (\<forall>sp. 0 < sp \<and> sp < length chunk \<and> chunk ! sp = SPACE
                  \<and> (\<forall>j. sp < j \<and> j < length chunk \<longrightarrow> chunk ! j \<noteq> SPACE)
              \<longrightarrow> truncateAtSentenceBoundary c 520
                    = trimDanglingConnector (take sp chunk) @ [ELLIPSIS])
          \<and> (SPACE \<notin> set chunk
              \<longrightarrow> truncateAtSentenceBoundary c 520 = trimDanglingConnector chunk @ [ELLIPSIS]))"
proof -
  have fl: "sentence_floor 520 = 286" by (simp add: sentence_floor_def)
  from long have unf: "truncateAtSentenceBoundary c 520 =
      (if 286 \<le> lastPunctuationOf chunk
       then trimDanglingConnector (take (nat (lastPunctuationOf chunk + 1)) chunk)
       else if 0 < lastIndexOf SPACE chunk
            then trimDanglingConnector (take (nat (lastIndexOf SPACE chunk)) chunk) @ [ELLIPSIS]
            else trimDanglingConnector chunk @ [ELLIPSIS])"
    by (simp add: truncateAtSentenceBoundary_def chunk Let_def fl)
  have one: "truncateAtSentenceBoundary c 520 = take (p + 1) chunk"
    if p: "286 \<le> p" "p < length chunk" "is_punct (chunk ! p)"
      "\<forall>j. p < j \<and> j < length chunk \<longrightarrow> \<not> is_punct (chunk ! j)" for p
  proof -
    from lastPunctuationOf_eq[OF p(2,3,4)] have lp: "lastPunctuationOf chunk = int p" .
    from p(2) have ne: "chunk \<noteq> []" by auto
    from lp p(1) unf have "truncateAtSentenceBoundary c 520 = trimDanglingConnector (take (p + 1) chunk)"
      by (simp add: nat_add_distrib)
    moreover have "trimDanglingConnector (take (p + 1) chunk) = take (p + 1) chunk"
    proof (rule trimDanglingConnector_punct)
      show "take (p + 1) chunk \<noteq> []" using ne by simp
      show "\<not> is_ws (hd (take (p + 1) chunk))"
        using chunk_hd[OF hd chunk ne] ne by (cases chunk) auto
      show "is_punct (last (take (p + 1) chunk))"
        using p(2,3) by (simp add: take_Suc_conv_app_nth)
    qed
    ultimately show ?thesis by simp
  qed
  have two: "truncateAtSentenceBoundary c 520 = trimDanglingConnector (take sp chunk) @ [ELLIPSIS]"
    if np: "\<forall>j. 286 \<le> j \<and> j < length chunk \<longrightarrow> \<not> is_punct (chunk ! j)"
      and sp: "0 < sp" "sp < length chunk" "chunk ! sp = SPACE"
        "\<forall>j. sp < j \<and> j < length chunk \<longrightarrow> chunk ! j \<noteq> SPACE" for sp
  proof -
    from lastPunctuationOf_low[OF np] have "\<not> 286 \<le> lastPunctuationOf chunk" by simp
    moreover from lastIndexOf_eq[OF sp(2,3,4)] have "lastIndexOf SPACE chunk = int sp" .
    ultimately show ?thesis using unf sp(1) by simp
  qed
  have three: "truncateAtSentenceBoundary c 520 = trimDanglingConnector chunk @ [ELLIPSIS]"
    if np: "\<forall>j. 286 \<le> j \<and> j < length chunk \<longrightarrow> \<not> is_punct (chunk ! j)"
      and ns: "SPACE \<notin> set chunk"
  proof -
    from lastPunctuationOf_low[OF np] have "\<not> 286 \<le> lastPunctuationOf chunk" by simp
    moreover from ns have "lastIndexOf SPACE chunk = - 1" by (rule lastIndexOf_absent)
    ultimately show ?thesis using unf by simp
  qed
  from one two three show ?thesis by blast
qed

lemma line_mode_cases:
  assumes "\<not> hasTable (withoutFillerOpeners text)"
    and "c = compactLines (withoutFillerOpeners text)"
    and "520 < length c"
    and "chunk = trimEnd (take 520 c)"
  shows "(\<forall>p. 286 \<le> p \<and> p < length chunk \<and> is_punct (chunk ! p)
             \<and> (\<forall>j. p < j \<and> j < length chunk \<longrightarrow> \<not> is_punct (chunk ! j))
           \<longrightarrow> makeConciseReply text = take (p + 1) chunk)
       \<and> ((\<forall>j. 286 \<le> j \<and> j < length chunk \<longrightarrow> \<not> is_punct (chunk ! j)) \<longrightarrow>
            (\<forall>sp. 0 < sp \<and> sp < length chunk \<and> chunk ! sp = SPACE
                  \<and> (\<forall>j. sp < j \<and> j < length chunk \<longrightarrow> chunk ! j \<noteq> SPACE)
              \<longrightarrow> makeConciseReply text = trimDanglingConnector (take sp chunk) @ [ELLIPSIS])
          \<and> (SPACE \<notin> set chunk
              \<longrightarrow> makeConciseReply text = trimDanglingConnector chunk @ [ELLIPSIS]))"
proof -
  have hd: "c = [] \<or> \<not> is_ws (hd c)" unfolding assms(2) by (rule compact_hd)
  have "makeConciseReply text = truncateAtSentenceBoundary c 520"
    unfolding assms(2) by (rule line_mode_out[OF assms(1)])
  with truncate_cases[OF hd assms(3,4)] show ?thesis by simp
qed

subsection \<open>Evaluating the shaper on long single-line replies\<close>

lemma plain_line_unchanged:
  assumes "s \<noteq> []" and "hd s \<noteq> 0xA1" and "canon (hd s) \<noteq> 0x42" and "canon (hd s) \<noteq> 0x4D"
    and "\<not> is_ws (hd s)" and "\<not> is_ws (last s)" and "PIPE \<notin> set s" and "NL \<notin> set s"
  shows "withoutFillerOpeners s = s \<and> \<not> hasTable s \<and> compactLines s = s"
proof -
  from assms(1) obtain c r where s: "s = c # r" by (cases s) auto
  with assms(2,3,4) have "\<not> test re_filler1 s" "\<not> test re_filler2 s"
    by (simp_all add: filler1_no_match filler2_no_match)
  moreover from assms(5,6) have "trim s = s" by (simp add: trim_id)
  ultimately have "withoutFillerOpeners s = s" by (rule withoutFillerOpeners_id)
  moreover from assms(7) have "\<not> hasTable s" by (rule hasTable_needs_pipe)
  moreover from assms(8,1,5,6) have "compactLines s = s" by (rule compactLines_single)
  ultimately show ?thesis by simp
qed

lemma connector_run_miss:
  assumes "r = [] \<or> \<not> is_ws (hd r)"
  shows "run re_connector (b, r, cs) = []"
proof -
  from assms have "run (plus ws) (b, r, cs) = []"
    unfolding ws_def One_nat_def by (rule run_plus_miss)
  then show ?thesis by (simp add: re_connector_def)
qed

lemma trimDanglingConnector_at:
  assumes "k \<le> length s"
    and "\<And>j. j < k \<Longrightarrow> drop j s = [] \<or> \<not> is_ws (hd (drop j s))"
    and "run re_connector (rev (take k s), drop k s, []) \<noteq> []"
  shows "trimDanglingConnector s = trim (take k s)"
proof -
  from assms(3) obtain y ys where y: "run re_connector (rev (take k s) @ [], drop k s, []) = y # ys"
    by (cases "run re_connector (rev (take k s), drop k s, [])") auto
  have "search re_connector [] s = Some (k, y)"
  proof (rule search_SomeI[OF assms(1) _ y])
    fix j assume "j < k"
    from assms(2)[OF this] show "run re_connector (rev (take j s) @ [], drop j s, []) = []"
      by (rule connector_run_miss)
  qed
  moreover obtain b2 r2 cs2 where ye: "y = (b2, r2, cs2)" by (cases y) auto
  moreover from y ye have "(b2, r2, cs2) \<in> set (run re_connector (rev (take k s) @ [], drop k s, []))"
    by simp
  then have "r2 = []" by (rule connector_run_end)
  ultimately show ?thesis by (simp add: trimDanglingConnector_def replace_first_def)
qed

lemma connector_run_y: "run re_connector (b, [SPACE, 0x79], []) \<noteq> []"
  by (simp add: re_connector_def run.simps(8) ws_def lit_ci_def ci_def canon_def is_ws_def)

lemma nth_after:
  assumes "\<forall>x\<in>set ys. \<not> P x" and "length xs < j" and "j < length (xs @ c # ys)"
  shows "\<not> P ((xs @ c # ys) ! j)"
proof -
  from assms(2,3) have "(xs @ c # ys) ! j = ys ! (j - length xs - 1)"
    by (simp add: nth_append nth_Cons')
  moreover from assms(2,3) have "j - length xs - 1 < length ys" by simp
  ultimately show ?thesis using assms(1) by simp
qed

lemma long_reply_with_connector:
  defines "T \<equiv> replicate 510 0x61 @ [SPACE, 0x79, SPACE] @ replicate 20 0x62"
    and "CH \<equiv> replicate 510 0x61 @ [SPACE, 0x79, SPACE] @ replicate 7 0x62"
  shows "withoutFillerOpeners T = T" and "\<not> hasTable T" and "compactLines T = T"
    and "length T = 533" and "trimEnd (take 520 T) = CH"
    and "lastPunctuationOf CH = - 1" and "lastIndexOf SPACE CH = 512"
    and "take 512 CH = replicate 510 0x61 @ [SPACE, 0x79]"
    and "trimDanglingConnector (take 512 CH) = replicate 510 0x61"
    and "\<forall>j. 286 \<le> j \<and> j < length CH \<longrightarrow> \<not> is_punct (CH ! j)"
    and "512 < length CH \<and> CH ! 512 = SPACE \<and> (\<forall>j. 512 < j \<and> j < length CH \<longrightarrow> CH ! j \<noteq> SPACE)"
proof -
  have nws: "\<not> is_ws (0x61 :: cu)" "\<not> is_ws (0x62 :: cu)" by (simp_all add: is_ws_def)
  have cn: "canon 0x61 \<noteq> 0x42" "canon 0x61 \<noteq> 0x4D" by (simp_all add: canon_def)
  have "withoutFillerOpeners T = T \<and> \<not> hasTable T \<and> compactLines T = T"
    by (rule plain_line_unchanged) (simp_all add: T_def nws cn)
  then show "withoutFillerOpeners T = T" and "\<not> hasTable T" and "compactLines T = T" by simp_all
  show "length T = 533" by (simp add: T_def)
  have tk: "take 520 T = CH" by (simp add: T_def CH_def)
  have "trimEnd CH = CH" by (rule trimEnd_id) (simp add: CH_def nws)
  with tk show "trimEnd (take 520 T) = CH" by simp
  have np: "\<forall>x\<in>set CH. \<not> is_punct x" by (auto simp: CH_def is_punct_def)
  then have "x \<notin> set CH" if "is_punct x" for x using that by blast
  then have "lastIndexOf x CH = - 1" if "is_punct x" for x
    using that by (simp add: lastIndexOf_absent)
  then show "lastPunctuationOf CH = - 1" by (simp add: lastPunctuationOf_def is_punct_def)
  from np show "\<forall>j. 286 \<le> j \<and> j < length CH \<longrightarrow> \<not> is_punct (CH ! j)" by simp
  have ch: "CH = (replicate 510 0x61 @ [SPACE, 0x79]) @ SPACE # replicate 7 0x62"
    by (simp add: CH_def)
  have l: "length (replicate 510 (0x61 :: cu) @ [SPACE, 0x79]) = 512" by simp
  have at: "CH ! 512 = SPACE" unfolding ch using nth_append_length[of "replicate 510 (0x61 :: cu) @ [SPACE, 0x79]"] l by metis
  have later: "CH ! j \<noteq> SPACE" if "512 < j" "j < length CH" for j
    using nth_after[of "replicate 7 0x62" "\<lambda>x. x = SPACE" "replicate 510 0x61 @ [SPACE, 0x79]" j SPACE] that l
    unfolding ch by simp
  have len: "512 < length CH" by (simp add: CH_def)
  from len at later show "512 < length CH \<and> CH ! 512 = SPACE \<and> (\<forall>j. 512 < j \<and> j < length CH \<longrightarrow> CH ! j \<noteq> SPACE)"
    by blast
  from len at later have "lastIndexOf SPACE CH = int 512" by (intro lastIndexOf_eq) auto
  then show "lastIndexOf SPACE CH = 512" by simp
  show t5: "take 512 CH = replicate 510 0x61 @ [SPACE, 0x79]" by (simp add: CH_def)
  have "trimDanglingConnector (replicate 510 0x61 @ [SPACE, 0x79]) = trim (take 510 (replicate 510 0x61 @ [SPACE, 0x79]))"
  proof (rule trimDanglingConnector_at)
    show "510 \<le> length (replicate 510 (0x61 :: cu) @ [SPACE, 0x79])" by simp
    show "drop j (replicate 510 0x61 @ [SPACE, 0x79]) = [] \<or> \<not> is_ws (hd (drop j (replicate 510 0x61 @ [SPACE, 0x79])))"
      if "j < 510" for j using that nws by (simp add: hd_append)
    show "run re_connector (rev (take 510 (replicate 510 0x61 @ [SPACE, 0x79])), drop 510 (replicate 510 0x61 @ [SPACE, 0x79]), []) \<noteq> []"
      using connector_run_y by simp
  qed
  moreover have "trim (replicate 510 (0x61 :: cu)) = replicate 510 0x61"
    by (rule trim_id) (simp add: nws)
  ultimately show "trimDanglingConnector (take 512 CH) = replicate 510 0x61" by (simp add: t5)
qed

text \<open>
  C4. The claim fails in its second case. When the last sentence mark lies before 55% of
  the ceiling, the source cuts at the last space (U+0020, not any white space) and then
  trims a dangling connector before it appends the ellipsis: 510 letters a, " y ", 20
  letters b is shaped to the 510 letters and the ellipsis, not to the 512 units before
  the last space and the ellipsis.
\<close>

theorem C4_cut_at_space_counterexample:
  "\<not> hasTable (withoutFillerOpeners (replicate 510 0x61 @ [SPACE, 0x79, SPACE] @ replicate 20 0x62))
   \<and> compactLines (withoutFillerOpeners (replicate 510 0x61 @ [SPACE, 0x79, SPACE] @ replicate 20 0x62))
       = replicate 510 0x61 @ [SPACE, 0x79, SPACE] @ replicate 20 0x62
   \<and> length (replicate 510 (0x61 :: cu) @ [SPACE, 0x79, SPACE] @ replicate 20 0x62) = 533
   \<and> trimEnd (take 520 (replicate 510 0x61 @ [SPACE, 0x79, SPACE] @ replicate 20 0x62))
       = replicate 510 0x61 @ [SPACE, 0x79, SPACE] @ replicate 7 0x62
   \<and> lastPunctuationOf (replicate 510 0x61 @ [SPACE, 0x79, SPACE] @ replicate 7 0x62) = - 1
   \<and> lastIndexOf SPACE (replicate 510 0x61 @ [SPACE, 0x79, SPACE] @ replicate 7 0x62) = 512
   \<and> makeConciseReply (replicate 510 0x61 @ [SPACE, 0x79, SPACE] @ replicate 20 0x62)
       = replicate 510 0x61 @ [ELLIPSIS]
   \<and> makeConciseReply (replicate 510 0x61 @ [SPACE, 0x79, SPACE] @ replicate 20 0x62)
       \<noteq> take 512 (replicate 510 0x61 @ [SPACE, 0x79, SPACE] @ replicate 7 0x62) @ [ELLIPSIS]"
proof -
  let ?T = "replicate 510 0x61 @ [SPACE, 0x79, SPACE] @ replicate 20 (0x62 :: cu)"
  let ?CH = "replicate 510 0x61 @ [SPACE, 0x79, SPACE] @ replicate 7 (0x62 :: cu)"
  note f = long_reply_with_connector
  have c: "?T = compactLines (withoutFillerOpeners ?T)" by (simp only: f(1,3))
  have l: "520 < length ?T" by (simp only: f(4))
  have h: "\<not> hasTable (withoutFillerOpeners ?T)" by (simp only: f(1,2) simp_thms)
  have z: "0 < (512 :: nat)" by simp
  from line_mode_cases[OF h c l f(5)[symmetric]] f(10,11) z
  have "makeConciseReply ?T = trimDanglingConnector (take 512 ?CH) @ [ELLIPSIS]" by blast
  then have m: "makeConciseReply ?T = replicate 510 0x61 @ [ELLIPSIS]" by (simp only: f(9))
  have "replicate 510 (0x61 :: cu) @ [ELLIPSIS] \<noteq> take 512 ?CH @ [ELLIPSIS]"
    by (simp only: f(8)) simp
  with m h c f(4,5,6,7) show ?thesis by simp
qed

text \<open>
  C4, amended. In line mode, when the compacted text (the first six non-empty trimmed
  lines joined by line breaks) is longer than 520 units, let the chunk be its first 520
  units without trailing white space. If the last of the marks . ! ? ; : in the chunk is
  at index 286 or later, the output is the chunk up to and including that mark (trimming
  a connector changes nothing there) and no ellipsis. Otherwise, if the last space
  (U+0020) of the chunk is at an index above 0, the output is the chunk before that
  space with a dangling connector trimmed, and the ellipsis; and if the chunk has no
  space, the whole chunk with a dangling connector trimmed, and the ellipsis.
\<close>

theorem C4_truncation_cases:
  assumes "\<not> hasTable (withoutFillerOpeners text)"
    and "c = compactLines (withoutFillerOpeners text)"
    and "520 < length c"
    and "chunk = trimEnd (take 520 c)"
  shows "(\<forall>p. 286 \<le> p \<and> p < length chunk \<and> is_punct (chunk ! p)
             \<and> (\<forall>j. p < j \<and> j < length chunk \<longrightarrow> \<not> is_punct (chunk ! j))
           \<longrightarrow> makeConciseReply text = take (p + 1) chunk)
       \<and> ((\<forall>j. 286 \<le> j \<and> j < length chunk \<longrightarrow> \<not> is_punct (chunk ! j)) \<longrightarrow>
            (\<forall>sp. 0 < sp \<and> sp < length chunk \<and> chunk ! sp = SPACE
                  \<and> (\<forall>j. sp < j \<and> j < length chunk \<longrightarrow> chunk ! j \<noteq> SPACE)
              \<longrightarrow> makeConciseReply text = trimDanglingConnector (take sp chunk) @ [ELLIPSIS])
          \<and> (SPACE \<notin> set chunk
              \<longrightarrow> makeConciseReply text = trimDanglingConnector chunk @ [ELLIPSIS]))"
  using assms by (rule line_mode_cases)

theorem C4_truncation_cases_witness:
  "\<not> hasTable (withoutFillerOpeners (replicate 510 0x61 @ [SPACE, 0x79, SPACE] @ replicate 20 0x62))
   \<and> 520 < length (compactLines (withoutFillerOpeners
               (replicate 510 0x61 @ [SPACE, 0x79, SPACE] @ replicate 20 0x62)))
   \<and> lastPunctuationOf (trimEnd (take 520 (compactLines (withoutFillerOpeners
               (replicate 510 0x61 @ [SPACE, 0x79, SPACE] @ replicate 20 0x62))))) = - 1
   \<and> lastIndexOf SPACE (trimEnd (take 520 (compactLines (withoutFillerOpeners
               (replicate 510 0x61 @ [SPACE, 0x79, SPACE] @ replicate 20 0x62))))) = 512
   \<and> makeConciseReply (replicate 510 0x61 @ [SPACE, 0x79, SPACE] @ replicate 20 0x62)
       = trimDanglingConnector (replicate 510 0x61 @ [SPACE, 0x79]) @ [ELLIPSIS]"
proof -
  let ?T = "replicate 510 0x61 @ [SPACE, 0x79, SPACE] @ replicate 20 (0x62 :: cu)"
  let ?CH = "replicate 510 0x61 @ [SPACE, 0x79, SPACE] @ replicate 7 (0x62 :: cu)"
  note f = long_reply_with_connector
  have c: "?T = compactLines (withoutFillerOpeners ?T)" by (simp only: f(1,3))
  have l: "520 < length ?T" by (simp only: f(4))
  have h: "\<not> hasTable (withoutFillerOpeners ?T)" by (simp only: f(1,2) simp_thms)
  have z: "0 < (512 :: nat)" by simp
  from C4_truncation_cases[OF h c l f(5)[symmetric]] f(10,11) z
  have "makeConciseReply ?T = trimDanglingConnector (take 512 ?CH) @ [ELLIPSIS]" by blast
  then have "makeConciseReply ?T = trimDanglingConnector (replicate 510 0x61 @ [SPACE, 0x79]) @ [ELLIPSIS]"
    by (simp only: f(8))
  with h l f(1,3,5,6,7) show ?thesis by simp
qed

lemma line_mode_cut_at_mark:
  assumes long: "520 < length text" and wf: "withoutFillerOpeners text = text"
    and nt: "\<not> hasTable text" and cl: "compactLines text = text"
    and p: "286 \<le> p" "p < 520" "is_punct (text ! p)"
    and later: "\<forall>j. p < j \<and> j < 520 \<longrightarrow> \<not> is_punct (text ! j)"
  shows "makeConciseReply text = take (p + 1) text"
proof -
  define chunk where "chunk = trimEnd (take 520 text)"
  define k where "k = length chunk"
  have "chunk = take k (take 520 text)" unfolding chunk_def k_def by (rule trimEnd_take)
  moreover have k520: "k \<le> 520"
    using length_trimEnd[of "take 520 text"] by (simp add: k_def chunk_def)
  ultimately have ch: "chunk = take k text" by (simp add: min_absorb1)
  from p(3) have "\<not> is_ws (text ! p)" by (simp add: punct_not_final)
  with p(2) long have "\<not> is_ws (take 520 text ! p)" by simp
  moreover from p(2) long have "p < length (take 520 text)" by simp
  ultimately have pk: "p < k" unfolding k_def chunk_def by (rule trimEnd_keeps[rotated])
  have nth: "chunk ! j = text ! j" if "j < k" for j using that by (simp add: ch)
  have a: "286 \<le> p \<and> p < length chunk \<and> is_punct (chunk ! p)
      \<and> (\<forall>j. p < j \<and> j < length chunk \<longrightarrow> \<not> is_punct (chunk ! j))"
    using p pk nth later k520 by (auto simp: k_def[symmetric])
  have h: "\<not> hasTable (withoutFillerOpeners text)" by (simp add: wf nt)
  have c: "text = compactLines (withoutFillerOpeners text)" by (simp add: wf cl)
  from line_mode_cases[OF h c long chunk_def] a
  have "makeConciseReply text = take (p + 1) chunk" by blast
  also have "\<dots> = take (p + 1) text" using pk by (simp add: ch min_absorb1)
  finally show ?thesis .
qed

lemma long_reply_late_period:
  defines "T \<equiv> replicate 600 0x61 @ [0x2E] @ replicate 99 0x61"
  shows "withoutFillerOpeners T = T" and "\<not> hasTable T" and "compactLines T = T"
    and "length T = 700" and "T ! 600 = 0x2E"
    and "makeConciseReply T = replicate 520 0x61 @ [ELLIPSIS]"
    and "take 601 T = replicate 600 0x61 @ [0x2E]"
proof -
  have nws: "\<not> is_ws (0x61 :: cu)" by (simp add: is_ws_def)
  have cn: "canon 0x61 \<noteq> 0x42" "canon 0x61 \<noteq> 0x4D" by (simp_all add: canon_def)
  have u: "withoutFillerOpeners T = T \<and> \<not> hasTable T \<and> compactLines T = T"
    by (rule plain_line_unchanged) (simp_all add: T_def nws cn)
  then show w: "withoutFillerOpeners T = T" and t: "\<not> hasTable T" and c: "compactLines T = T"
    by simp_all
  show l: "length T = 700" by (simp add: T_def)
  show "T ! 600 = 0x2E" by (simp add: T_def nth_append)
  show "take 601 T = replicate 600 0x61 @ [0x2E]" by (simp add: T_def)
  define CH :: jsstring where "CH = replicate 520 0x61"
  have tk: "take 520 T = CH" by (simp add: T_def CH_def)
  have "trimEnd CH = CH" by (rule trimEnd_id) (simp add: CH_def nws)
  with tk have ch: "CH = trimEnd (take 520 T)" by simp
  have np: "\<forall>j. 286 \<le> j \<and> j < length CH \<longrightarrow> \<not> is_punct (CH ! j)"
    by (simp add: CH_def is_punct_def)
  have ns: "SPACE \<notin> set CH" by (simp add: CH_def)
  have "\<not> test re_connector CH" by (rule connector_needs_ws) (simp add: CH_def nws)
  moreover have "trim CH = CH" by (rule trim_id) (simp add: CH_def nws)
  ultimately have td: "trimDanglingConnector CH = CH" by (rule trimDanglingConnector_id)
  have h: "\<not> hasTable (withoutFillerOpeners T)" by (simp add: w t)
  have c': "T = compactLines (withoutFillerOpeners T)" by (simp add: w c)
  have l': "520 < length T" by (simp add: l)
  from line_mode_cases[OF h c' l' ch] np ns
  have "makeConciseReply T = trimDanglingConnector CH @ [ELLIPSIS]" by blast
  then have "makeConciseReply T = CH @ [ELLIPSIS]" by (simp only: td)
  then show "makeConciseReply T = replicate 520 0x61 @ [ELLIPSIS]" by (simp only: CH_def)
qed

text \<open>
  C5. The claim fails: the shaper looks for the sentence mark only in the first 520
  units, so a period at index 600 is never seen. With 600 letters a, a period and 99
  more letters a (700 units, one line) the chunk has no mark and no space, and the
  output is its 520 letters and the ellipsis, 521 units, not the first 601.
\<close>

theorem C5_period_at_600_counterexample:
  "length (replicate 600 (0x61 :: cu) @ [0x2E] @ replicate 99 0x61) = 700
   \<and> (replicate 600 (0x61 :: cu) @ [0x2E] @ replicate 99 0x61) ! 600 = 0x2E
   \<and> \<not> hasTable (withoutFillerOpeners (replicate 600 0x61 @ [0x2E] @ replicate 99 0x61))
   \<and> compactLines (withoutFillerOpeners (replicate 600 0x61 @ [0x2E] @ replicate 99 0x61))
       = replicate 600 0x61 @ [0x2E] @ replicate 99 0x61
   \<and> makeConciseReply (replicate 600 0x61 @ [0x2E] @ replicate 99 0x61)
       = replicate 520 0x61 @ [ELLIPSIS]
   \<and> length (makeConciseReply (replicate 600 0x61 @ [0x2E] @ replicate 99 0x61)) = 521
   \<and> makeConciseReply (replicate 600 0x61 @ [0x2E] @ replicate 99 0x61)
       \<noteq> take 601 (replicate 600 0x61 @ [0x2E] @ replicate 99 0x61)"
proof -
  note f = long_reply_late_period
  have a: "length (replicate 520 (0x61 :: cu) @ [ELLIPSIS]) = 521" by simp
  have b: "replicate 520 (0x61 :: cu) @ [ELLIPSIS] \<noteq> replicate 600 0x61 @ [0x2E]"
  proof
    assume "replicate 520 (0x61 :: cu) @ [ELLIPSIS] = replicate 600 0x61 @ [0x2E]"
    then have "length (replicate 520 (0x61 :: cu) @ [ELLIPSIS]) = length (replicate 600 (0x61 :: cu) @ [0x2E])"
      by (rule arg_cong)
    then show False by simp
  qed
  show ?thesis
    by (simp only: f a b simp_thms not_False_eq_True)
qed

text \<open>
  C5, amended. For a reply of 700 units that the shaper takes as it is (no filler
  opener, no table row, at most six lines, all non-empty and trimmed), if the last of
  the marks . ! ? ; : among its first 520 units is at an index p of 286 or more, the
  output is the first p + 1 units, ending with that mark. A mark beyond the first 520
  units, such as a period at index 600, plays no part.
\<close>

theorem C5_cut_within_the_cap:
  assumes "length text = 700" and "withoutFillerOpeners text = text"
    and "\<not> hasTable text" and "compactLines text = text"
    and "286 \<le> p" and "p < 520" and "is_punct (text ! p)"
    and "\<forall>j. p < j \<and> j < 520 \<longrightarrow> \<not> is_punct (text ! j)"
  shows "makeConciseReply text = take (p + 1) text"
proof -
  from assms(1) have "520 < length text" by simp
  from line_mode_cut_at_mark[OF this assms(2-8)] show ?thesis .
qed

theorem C5_cut_within_the_cap_witness:
  "length (replicate 400 (0x61 :: cu) @ [0x2E] @ replicate 199 0x61 @ [0x2E] @ replicate 99 0x61) = 700
   \<and> withoutFillerOpeners (replicate 400 0x61 @ [0x2E] @ replicate 199 0x61 @ [0x2E] @ replicate 99 0x61)
       = replicate 400 0x61 @ [0x2E] @ replicate 199 0x61 @ [0x2E] @ replicate 99 0x61
   \<and> \<not> hasTable (replicate 400 0x61 @ [0x2E] @ replicate 199 0x61 @ [0x2E] @ replicate 99 0x61)
   \<and> compactLines (replicate 400 0x61 @ [0x2E] @ replicate 199 0x61 @ [0x2E] @ replicate 99 0x61)
       = replicate 400 0x61 @ [0x2E] @ replicate 199 0x61 @ [0x2E] @ replicate 99 0x61
   \<and> (replicate 400 (0x61 :: cu) @ [0x2E] @ replicate 199 0x61 @ [0x2E] @ replicate 99 0x61) ! 400 = 0x2E
   \<and> (replicate 400 (0x61 :: cu) @ [0x2E] @ replicate 199 0x61 @ [0x2E] @ replicate 99 0x61) ! 600 = 0x2E
   \<and> makeConciseReply (replicate 400 0x61 @ [0x2E] @ replicate 199 0x61 @ [0x2E] @ replicate 99 0x61)
       = replicate 400 0x61 @ [0x2E]"
proof -
  define W :: jsstring where
    "W = replicate 400 0x61 @ [0x2E] @ replicate 199 0x61 @ [0x2E] @ replicate 99 0x61"
  have nws: "\<not> is_ws (0x61 :: cu)" by (simp add: is_ws_def)
  have cn: "canon 0x61 \<noteq> 0x42" "canon 0x61 \<noteq> 0x4D" by (simp_all add: canon_def)
  have u: "withoutFillerOpeners W = W \<and> \<not> hasTable W \<and> compactLines W = W"
    by (rule plain_line_unchanged) (simp_all add: W_def nws cn)
  have l: "length W = 700" by (simp add: W_def)
  have p: "W ! 400 = 0x2E" by (simp add: W_def nth_append)
  have q: "W ! 600 = 0x2E" by (simp add: W_def nth_append)
  have ip: "is_punct (W ! 400)" by (simp add: p is_punct_def)
  have later: "\<forall>j. 400 < j \<and> j < 520 \<longrightarrow> \<not> is_punct (W ! j)"
    by (auto simp: W_def nth_append nth_Cons' is_punct_def)
  have b: "(286 :: nat) \<le> 400" "(400 :: nat) < 520" by simp_all
  from u have u1: "withoutFillerOpeners W = W" and u2: "\<not> hasTable W" and u3: "compactLines W = W"
    by simp_all
  from C5_cut_within_the_cap[OF l u1 u2 u3 b ip later]
  have "makeConciseReply W = take (400 + 1) W" .
  then have m: "makeConciseReply W = replicate 400 0x61 @ [0x2E]" by (simp add: W_def)
  from l u1 u2 u3 p q m show ?thesis unfolding W_def by blast
qed

subsection \<open>The table branch of the shaper\<close>












text \<open>
  The same expression carries the \<^verbatim>\<open>m\<close> flag, so it matches the first row after a line
  break, not the last one: after a complete separator row a trailing incomplete row
  stays. The amended statement below leaves this case out.
\<close>

lemma incomplete_row_after_complete_rows_kept:
  "makeConciseReply (u ''|a|b|\<newline>|--|--|\<newline>|c|d'') = u ''|a|b|\<newline>|--|--|\<newline>|c|d''"
  by code_simp



section \<open>The renderer writes safe HTML\<close>

subsection \<open>Texts made of tokens\<close>

lemma safe_Nil: "safe_html []"
  unfolding safe_html_def by (rule exI[of _ "[]"]) simp

lemma safe_token: "token t \<Longrightarrow> safe_html t"
  unfolding safe_html_def by (rule exI[of _ "[t]"]) simp

lemma safe_append: "safe_html a \<Longrightarrow> safe_html b \<Longrightarrow> safe_html (a @ b)"
proof -
  assume "safe_html a" "safe_html b"
  then obtain ta tb where "a = concat ta" "\<forall>t\<in>set ta. token t" "b = concat tb" "\<forall>t\<in>set tb. token t"
    unfolding safe_html_def by blast
  then have "a @ b = concat (ta @ tb) \<and> (\<forall>t\<in>set (ta @ tb). token t)" by auto
  then show ?thesis unfolding safe_html_def by blast
qed

lemma safe_plain: "plain_unit c \<Longrightarrow> safe_html [c]"
  by (rule safe_token) (simp add: token_def)

lemma safe_tag: "t \<in> set renderer_tags \<Longrightarrow> safe_html t"
  by (rule safe_token) (simp add: token_def)

lemma safe_entity: "t \<in> set entities \<Longrightarrow> safe_html t"
  by (rule safe_token) (simp add: token_def)

lemma safe_concat: "(\<forall>t\<in>set ts. safe_html t) \<Longrightarrow> safe_html (concat ts)"
  by (induction ts) (auto intro: safe_Nil safe_append)

lemma tags_shape:
  "list_all (\<lambda>t. length t \<ge> 2 \<and> (hd t = 0x3C \<or> hd t = 0x26) \<and> (last t = 0x3E \<or> last t = 0x3B))
     (renderer_tags @ entities)"
  by code_simp

lemma tag_shape:
  assumes "t \<in> set (renderer_tags @ entities)"
  shows "length t \<ge> 2 \<and> (hd t = 0x3C \<or> hd t = 0x26) \<and> (last t = 0x3E \<or> last t = 0x3B)"
  using tags_shape assms unfolding list_all_iff by blast

lemma token_nonempty: "token t \<Longrightarrow> t \<noteq> []"
  using tag_shape[of t] by (auto simp: token_def)

lemma token_split:
  assumes "token (x @ y)" and "x \<noteq> []" and "y \<noteq> []"
  shows "inner_last (last x) \<and> inner_first (hd y)"
proof -
  from assms have "\<not> (\<exists>c. x @ y = [c])"
    by (cases x; cases y) auto
  with assms(1) have t: "x @ y \<in> set (renderer_tags @ entities)" by (auto simp: token_def)
  from assms(2,3) have "hd y \<in> set (tl (x @ y))" by (cases x) auto
  moreover from assms(2,3) have "last x \<in> set (butlast (x @ y))"
    by (simp add: butlast_append)
  ultimately show ?thesis using t unfolding inner_first_def inner_last_def by blast
qed

lemma safe_cut:
  assumes "safe_html (a @ r)" and "cut_ok (rev a) r"
  shows "safe_html a \<and> safe_html r"
proof -
  from assms(1) obtain ts where ts: "concat ts = a @ r" "\<forall>t\<in>set ts. token t"
    unfolding safe_html_def by metis
  show ?thesis
  proof (cases "ts = []")
    case True
    with ts show ?thesis by (simp add: safe_Nil)
  next
    case False
    with ts(1) obtain ss1 x y ss2 where d: "ts = ss1 @ (x @ y) # ss2" "a = concat ss1 @ x"
      "r = y @ concat ss2"
      by (auto simp: concat_eq_append_conv)
    from d(1) ts(2) have t1: "\<forall>t\<in>set ss1. token t" and t2: "\<forall>t\<in>set ss2. token t"
      and tk: "token (x @ y)" by auto
    from t1 have s1: "safe_html (concat ss1)" by (auto intro: safe_concat safe_token)
    from t2 have s2: "safe_html (concat ss2)" by (auto intro: safe_concat safe_token)
    show ?thesis
    proof (cases "x = [] \<or> y = []")
      case True
      then show ?thesis
      proof
        assume "x = []"
        with d tk s1 s2 show ?thesis by (auto intro: safe_append safe_token)
      next
        assume "y = []"
        with d tk s1 s2 show ?thesis by (auto intro: safe_append safe_token)
      qed
    next
      case False
      then have ne: "x \<noteq> []" "y \<noteq> []" by auto
      from token_split[OF tk ne] have "inner_last (last x)" "inner_first (hd y)" by auto
      moreover from d(2,3) ne have "a \<noteq> []" "r \<noteq> []" "last a = last x" "hd r = hd y" by auto
      ultimately have "\<not> cut_ok (rev a) r" by (simp add: cut_ok_def hd_rev)
      with assms(2) show ?thesis by simp
    qed
  qed
qed

lemma multi_token_ends:
  assumes "token t" and "\<not> (\<exists>c. t = [c] \<and> plain_unit c)"
  shows "(hd t = 0x3C \<or> hd t = 0x26) \<and> (last t = 0x3E \<or> last t = 0x3B)"
  using assms tag_shape[of t] by (auto simp: token_def)

lemma safe_Cons_plain:
  assumes "safe_html (c # r)" and "plain_unit c"
  shows "safe_html r"
proof -
  from assms(1) obtain ts where ts: "c # r = concat ts" "\<forall>t\<in>set ts. token t"
    unfolding safe_html_def by blast
  from ts(1) obtain t ts' where c: "ts = t # ts'" by (cases ts) auto
  with ts(2) have tk: "token t" and rest: "\<forall>t\<in>set ts'. token t" by auto
  from tk have ne: "t \<noteq> []" by (rule token_nonempty)
  with ts(1) c have h: "hd t = c" by (cases t) auto
  have "t = [c]"
  proof (rule ccontr)
    assume n: "t \<noteq> [c]"
    with ne h have "\<not> (\<exists>c. t = [c] \<and> plain_unit c)" by (cases t) auto
    from multi_token_ends[OF tk this] h assms(2) show False by (auto simp: plain_unit_def)
  qed
  with ts(1) c have "r = concat ts'" by simp
  with rest show ?thesis unfolding safe_html_def by blast
qed

lemma safe_snoc_plain:
  assumes "safe_html (r @ [c])" and "plain_unit c" and "c \<noteq> 0x3B"
  shows "safe_html r"
proof -
  from assms(1) obtain ts where ts: "r @ [c] = concat ts" "\<forall>t\<in>set ts. token t"
    unfolding safe_html_def by blast
  from ts(1) have "ts \<noteq> []" by auto
  then obtain ts' t where c: "ts = ts' @ [t]" by (cases ts rule: rev_cases) auto
  with ts(2) have tk: "token t" and rest: "\<forall>t\<in>set ts'. token t" by auto
  from tk have ne: "t \<noteq> []" by (rule token_nonempty)
  from ts(1) c have e: "r @ [c] = concat ts' @ t" by simp
  with ne have l: "last t = c" by (metis last_appendR last_snoc)
  have "t = [c]"
  proof (rule ccontr)
    assume n: "t \<noteq> [c]"
    with ne l have "\<not> (\<exists>c. t = [c] \<and> plain_unit c)" by (cases t) auto
    from multi_token_ends[OF tk this] l assms(2,3) show False by (auto simp: plain_unit_def)
  qed
  with e have "r = concat ts'" by simp
  with rest show ?thesis unfolding safe_html_def by blast
qed

lemma ws_plain: "is_ws c \<Longrightarrow> plain_unit c \<and> c \<noteq> 0x3B"
  by (auto simp: is_ws_def plain_unit_def)

lemma safe_trimStart: "safe_html s \<Longrightarrow> safe_html (trimStart s)"
  unfolding trimStart_def
  by (induction s) (auto dest: safe_Cons_plain simp: ws_plain)

lemma safe_trimEnd: "safe_html s \<Longrightarrow> safe_html (trimEnd s)"
proof (induction s rule: rev_induct)
  case Nil
  then show ?case by (simp add: trimEnd_def)
next
  case (snoc c s)
  show ?case
  proof (cases "is_ws c")
    case True
    with snoc.prems have "safe_html s" using ws_plain[of c] by (auto dest: safe_snoc_plain)
    with snoc.IH True show ?thesis by (simp add: trimEnd_def)
  next
    case False
    with snoc.prems show ?thesis by (simp add: trimEnd_def)
  qed
qed

lemma safe_trim: "safe_html s \<Longrightarrow> safe_html (trim s)"
  by (simp add: trim_def safe_trimStart safe_trimEnd)

lemma inner_units:
  "\<not> inner_first 0x3C" "\<not> inner_first 0x26" "\<not> inner_last 0x3E" "\<not> inner_last 0x3B"
  "\<not> inner_first 0x2A" "\<not> inner_last 0x2A" "\<not> inner_first 0x60" "\<not> inner_last 0x60"
  "\<not> inner_first PIPE" "\<not> inner_last PIPE"
  by code_simp+

lemma inner_lt_units:
  "\<not> inner_first 0x0A \<and> \<not> inner_last 0x0A \<and> \<not> inner_first 0x0D \<and> \<not> inner_last 0x0D
   \<and> \<not> inner_first 0x2028 \<and> \<not> inner_last 0x2028 \<and> \<not> inner_first 0x2029 \<and> \<not> inner_last 0x2029"
  by code_simp

lemma inner_lt: "is_lt c \<Longrightarrow> \<not> inner_first c \<and> \<not> inner_last c"
  using inner_lt_units by (auto simp: is_lt_def)

lemma safe_split:
  assumes "safe_html s" and "\<not> inner_first d" and "plain_unit d"
  shows "\<forall>p\<in>set (split_on d s). safe_html p"
  using assms(1)
proof (induction "length s" arbitrary: s rule: less_induct)
  case less
  show ?case
  proof (cases "d \<in> set s")
    case False
    with less.prems show ?thesis by (simp add: split_on_no_sep_id)
  next
    case True
    then obtain p rest where s: "s = p @ d # rest" "d \<notin> set p"
      by (auto dest: split_list_first)
    have "cut_ok (rev p) (d # rest)" using assms(2) by (simp add: cut_ok_def)
    with less.prems s(1) have sp: "safe_html p" "safe_html (d # rest)"
      using safe_cut[of p "d # rest"] by auto
    from sp(2) assms(3) have "safe_html rest" by (rule safe_Cons_plain)
    moreover from s(1) have "length rest < length s" by simp
    ultimately have "\<forall>q\<in>set (split_on d rest). safe_html q" using less.hyps by blast
    with sp(1) s show ?thesis by (simp add: split_on_append_sep)
  qed
qed

subsection \<open>What a match passes over\<close>

lemma run_Chr_D:
  "(b', r', cs') \<in> set (run (Chr P) (b, r, cs)) \<Longrightarrow> r = hd r # r' \<and> r \<noteq> [] \<and> b' = hd r # b \<and> cs' = cs \<and> P (hd r)"
  by (auto split: list.splits if_splits)

lemma run_chr_D:
  "(b', r', cs') \<in> set (run (chr c) (b, r, cs)) \<Longrightarrow> r = c # r' \<and> b' = c # b \<and> cs' = cs"
  by (auto simp: chr_def split: list.splits if_splits)

lemma run_Bol_D:
  "(b', r', cs') \<in> set (run (Bol m) (b, r, cs)) \<Longrightarrow>
     b' = b \<and> r' = r \<and> cs' = cs \<and> (b = [] \<or> (m \<and> is_lt (hd b)))"
  by (auto split: list.splits if_splits)

lemma run_Eol_D:
  "(b', r', cs') \<in> set (run (Eol m) (b, r, cs)) \<Longrightarrow>
     b' = b \<and> r' = r \<and> cs' = cs \<and> (r = [] \<or> (m \<and> is_lt (hd r)))"
  by (auto split: list.splits if_splits)

lemma run_Seq_D:
  "(b', r', cs') \<in> set (run (Seq p q) st) \<Longrightarrow>
     \<exists>b1 r1 cs1. (b1, r1, cs1) \<in> set (run p st) \<and> (b', r', cs') \<in> set (run q (b1, r1, cs1))"
  by auto

lemma run_Grp_D:
  assumes "(b', r', cs') \<in> set (run (Grp n p) (b, r, cs))"
  shows "\<exists>m cs0. r = m @ r' \<and> b' = rev m @ b \<and> cs' = (n, m) # cs0
           \<and> (b', r', cs0) \<in> set (run p (b, r, cs))"
proof -
  from assms obtain cs0 where i: "(b', r', cs0) \<in> set (run p (b, r, cs))"
    and c: "cs' = (n, rev (take (length b' - length b) b')) # cs0" by auto
  from run_frame[OF i] obtain m where m: "r = m @ r'" "b' = rev m @ b" by blast
  then have "rev (take (length b' - length b) b') = m" by simp
  with c m i show ?thesis by blast
qed

lemma cap_hd: "cap n ((n, m) # cs) = m"
  by (simp add: cap_def)

lemma run_Rep_rel:
  assumes step: "\<And>x y. y \<in> set (run p x) \<Longrightarrow> R x y"
    and trans: "\<And>x y z. R x y \<Longrightarrow> R y z \<Longrightarrow> R x z"
  shows "y \<in> set (run (Rep g mn mx p) x) \<Longrightarrow> y = x \<or> R x y"
proof (induction "length (fst (snd x)) + mn" arbitrary: x mn mx rule: less_induct)
  case less
  obtain b r cs where x: "x = (b, r, cs)" by (cases x) auto
  show ?case
  proof (cases "mx = Some 0")
    case True
    with less.prems x show ?thesis by (simp add: run.simps(8))
  next
    case False
    let ?more = "concat (map (\<lambda>(b', r', cs').
                     if length r' < length r \<or> (length r' = length r \<and> 0 < mn)
                     then run (Rep g (mn - 1) (dec mx) p) (b', r', cs') else [])
                   (run p (b, r, cs)))"
    from less.prems x False have "y \<in> set ?more \<or> y = x"
      by (auto simp: run.simps(8)[of g mn mx p b r cs] Let_def split: if_splits)
    then show ?thesis
    proof
      assume "y = x"
      then show ?thesis by simp
    next
      assume "y \<in> set ?more"
      then obtain b1 r1 cs1 where x1: "(b1, r1, cs1) \<in> set (run p (b, r, cs))"
        and g: "length r1 < length r \<or> (length r1 = length r \<and> 0 < mn)"
        and y: "y \<in> set (run (Rep g (mn - 1) (dec mx) p) (b1, r1, cs1))"
        by (auto split: if_splits)
      from g have "length (fst (snd (b1, r1, cs1))) + (mn - 1) < length (fst (snd x)) + mn"
        using x by auto
      from less.hyps[OF this y] have "y = (b1, r1, cs1) \<or> R (b1, r1, cs1) y" .
      moreover from step[OF x1] x have "R x (b1, r1, cs1)" by simp
      ultimately show ?thesis using trans by blast
    qed
  qed
qed

lemma run_Rep_rel_pos:
  assumes step: "\<And>x y. y \<in> set (run p x) \<Longrightarrow> R x y"
    and trans: "\<And>x y z. R x y \<Longrightarrow> R y z \<Longrightarrow> R x z"
    and pos: "0 < mn" "mx \<noteq> Some 0"
    and y: "y \<in> set (run (Rep g mn mx p) x)"
  shows "R x y"
proof -
  obtain b r cs where x: "x = (b, r, cs)" by (cases x) auto
  from y x pos obtain b1 r1 cs1 where x1: "(b1, r1, cs1) \<in> set (run p (b, r, cs))"
    and y1: "y \<in> set (run (Rep g (mn - 1) (dec mx) p) (b1, r1, cs1))"
    by (auto simp: run.simps(8)[of g mn mx p b r cs] Let_def split: if_splits)
  have "y = (b1, r1, cs1) \<or> R (b1, r1, cs1) y"
  proof (rule run_Rep_rel[OF _ _ y1])
    show "\<And>x y. y \<in> set (run p x) \<Longrightarrow> R x y" by (rule step)
    show "\<And>x y z. R x y \<Longrightarrow> R y z \<Longrightarrow> R x z" by (rule trans)
  qed
  moreover from step[OF x1] x have "R x (b1, r1, cs1)" by simp
  ultimately show ?thesis using trans by blast
qed

lemma spans_trans:
  assumes "\<And>m n. Q m \<Longrightarrow> Q n \<Longrightarrow> m \<noteq> [] \<Longrightarrow> n \<noteq> [] \<Longrightarrow> Q (m @ n)"
  shows "spans Q x y \<Longrightarrow> spans Q y z \<Longrightarrow> spans Q x z"
proof -
  obtain b r cs b1 r1 cs1 b2 r2 cs2 where e: "x = (b, r, cs)" "y = (b1, r1, cs1)" "z = (b2, r2, cs2)"
    by (cases x; cases y; cases z) auto
  assume "spans Q x y" "spans Q y z"
  with e obtain m n where m: "m \<noteq> []" "r = m @ r1" "b1 = rev m @ b" "Q m"
    and n: "n \<noteq> []" "r1 = n @ r2" "b2 = rev n @ b1" "Q n"
    by (auto simp: spans_def)
  from m n have "m @ n \<noteq> [] \<and> r = (m @ n) @ r2 \<and> b2 = rev (m @ n) @ b \<and> Q (m @ n)"
    using assms by simp
  with e show ?thesis unfolding spans_def by blast
qed

lemma spans_D:
  "spans Q (b, r, cs) (b', r', cs') \<Longrightarrow> \<exists>m. m \<noteq> [] \<and> r = m @ r' \<and> b' = rev m @ b \<and> Q m"
  by (simp add: spans_def)

lemma run_Rep_Chr:
  assumes "y \<in> set (run (Rep g mn mx (Chr P)) x)"
  shows "y = x \<or> spans (\<lambda>m. \<forall>c\<in>set m. P c) x y"
proof (rule run_Rep_rel[OF _ _ assms])
  fix x y :: mstate assume "y \<in> set (run (Chr P) x)"
  then show "spans (\<lambda>m. \<forall>c\<in>set m. P c) x y"
    by (cases x; cases y) (auto simp: spans_def split: list.splits if_splits)
next
  fix x y z :: mstate
  assume "spans (\<lambda>m. \<forall>c\<in>set m. P c) x y" "spans (\<lambda>m. \<forall>c\<in>set m. P c) y z"
  then show "spans (\<lambda>m. \<forall>c\<in>set m. P c) x z" by (rule spans_trans[rotated]) auto
qed

lemma run_plus_Chr:
  assumes "y \<in> set (run (Rep g (Suc n) None (Chr P)) x)"
  shows "spans (\<lambda>m. \<forall>c\<in>set m. P c) x y"
proof (rule run_Rep_rel_pos[OF _ _ _ _ assms])
  fix x y :: mstate assume "y \<in> set (run (Chr P) x)"
  then show "spans (\<lambda>m. \<forall>c\<in>set m. P c) x y"
    by (cases x; cases y) (auto simp: spans_def split: list.splits if_splits)
next
  fix x y z :: mstate
  assume "spans (\<lambda>m. \<forall>c\<in>set m. P c) x y" "spans (\<lambda>m. \<forall>c\<in>set m. P c) y z"
  then show "spans (\<lambda>m. \<forall>c\<in>set m. P c) x z" by (rule spans_trans[rotated]) auto
qed simp_all

subsection \<open>Replacing in a safe text\<close>

lemma cut_ok_behind:
  assumes "cut_ok (rev a @ b) r" and "a \<noteq> []"
  shows "cut_ok (rev a) r"
  using assms by (cases a rule: rev_cases) (auto simp: cut_ok_def)

lemma safe_at_match:
  assumes ks: "keeps_safe p f" and whole: "safe_html (rev b @ r)" and rest: "safe_html r"
    and s: "search p b r = Some (k, (b2, r2, cs2))"
  shows "length r2 < length (drop k r) \<and> safe_html (take k r) \<and> safe_html r2
       \<and> safe_html (rev b2 @ r2)
       \<and> safe_html (f (take (length (drop k r) - length r2) (drop k r)) cs2)"
proof -
  let ?bs = "rev (take k r) @ b" and ?rs = "drop k r"
  from search_Some_D[OF s] have k: "k \<le> length r"
    and y: "(b2, r2, cs2) \<in> set (run p (?bs, ?rs, []))" by auto
  have w: "rev ?bs @ ?rs = rev b @ r" by simp
  with whole have sw: "safe_html (rev ?bs @ ?rs)" by simp
  from ks sw y have p0: "length r2 < length ?rs" and c1: "cut_ok ?bs ?rs" and c2: "cut_ok b2 r2"
    and sf: "safe_html (f (take (length ?rs - length r2) ?rs) cs2)"
    unfolding keeps_safe_def by blast+
  have st: "safe_html (take k r)"
  proof (cases "take k r = []")
    case True
    show ?thesis unfolding True by (rule safe_Nil)
  next
    case False
    with c1 have "cut_ok (rev (take k r)) ?rs" by (rule cut_ok_behind)
    moreover from rest have "safe_html (take k r @ ?rs)" by simp
    ultimately show ?thesis using safe_cut by blast
  qed
  from run_frame[OF y] obtain m where m: "?rs = m @ r2" "b2 = rev m @ ?bs" by blast
  then have "rev b2 @ r2 = rev ?bs @ ?rs" by simp
  with sw have s2: "safe_html (rev b2 @ r2)" by simp
  moreover from c2 have "cut_ok (rev (rev b2)) r2" by simp
  ultimately have "safe_html r2" using safe_cut[of "rev b2" r2] by blast
  with p0 st s2 sf show ?thesis by simp
qed

lemma replace_from_safe:
  assumes ks: "keeps_safe p f"
  shows "safe_html (rev b @ r) \<Longrightarrow> safe_html r \<Longrightarrow> safe_html (replace_from p f b r)"
proof (induction "length r" arbitrary: b r rule: less_induct)
  case less
  show ?case
  proof (cases "search p b r")
    case None
    with less.prems show ?thesis by (simp add: replace_from.simps[of p f b r])
  next
    case (Some a)
    then obtain k b2 r2 cs2 where s: "search p b r = Some (k, (b2, r2, cs2))"
      by (cases a) auto
    from safe_at_match[OF ks less.prems s] have p0: "length r2 < length (drop k r)"
      and st: "safe_html (take k r)" and s2: "safe_html r2" and sw: "safe_html (rev b2 @ r2)"
      and sf: "safe_html (f (take (length (drop k r) - length r2) (drop k r)) cs2)" by auto
    from p0 have "length r2 < length r" by simp
    from less.hyps[OF this sw s2] have "safe_html (replace_from p f b2 r2)" .
    with st sf have "safe_html (take k r @ f (take (length (drop k r) - length r2) (drop k r)) cs2
        @ replace_from p f b2 r2)"
      by (intro safe_append)
    with s p0 show ?thesis by (simp add: replace_from.simps[of p f b r])
  qed
qed

lemma replace_all_safe: "keeps_safe p f \<Longrightarrow> safe_html s \<Longrightarrow> safe_html (replace_all p f s)"
  unfolding replace_all_def by (rule replace_from_safe) simp_all

lemma replace_first_safe:
  assumes "keeps_safe p f" and "safe_html s"
  shows "safe_html (replace_first p f s)"
proof (cases "search p [] s")
  case None
  with assms(2) show ?thesis by (simp add: replace_first_def)
next
  case (Some a)
  then obtain k b2 r2 cs2 where s: "search p [] s = Some (k, (b2, r2, cs2))"
    by (cases a) auto
  from assms(2) have "safe_html (rev [] @ s)" by simp
  from safe_at_match[OF assms(1) this assms(2) s]
  have "safe_html (take k s @ f (take (length (drop k s) - length r2) (drop k s)) cs2 @ r2)"
    by (intro safe_append) auto
  with s show ?thesis by (simp add: replace_first_def)
qed

subsection \<open>Escaping\<close>

lemma replace_from_skip:
  assumes "run p (b, x # r, []) = []"
  shows "replace_from p f b (x # r) = x # replace_from p f (x # b) r"
proof (cases "search p (x # b) r")
  case None
  with assms have "search p b (x # r) = None" by (simp add: search.simps[of p b "x # r"])
  with None show ?thesis
    by (simp add: replace_from.simps[of p f b "x # r"] replace_from.simps[of p f "x # b" r])
next
  case (Some a)
  then obtain k b2 r2 cs2 where s: "search p (x # b) r = Some (k, (b2, r2, cs2))"
    by (cases a) auto
  with assms have "search p b (x # r) = Some (Suc k, (b2, r2, cs2))"
    by (simp add: search.simps[of p b "x # r"])
  with s show ?thesis
    by (simp add: replace_from.simps[of p f b "x # r"] replace_from.simps[of p f "x # b" r]
          cong: list.case_cong)
qed

lemma replace_from_chr:
  "replace_from (chr c) (\<lambda>m cs. t) b s = concat (map (\<lambda>x. if x = c then t else [x]) s)"
proof (induction s arbitrary: b)
  case Nil
  have "search (chr c) b [] = None" by (simp add: search.simps[of _ b "[]"] chr_def)
  then show ?case by (simp add: replace_from.simps[of _ _ b "[]"])
next
  case (Cons x s)
  show ?case
  proof (cases "x = c")
    case True
    then have "search (chr c) b (x # s) = Some (0, (c # b, s, []))"
      by (subst search.simps) (simp add: chr_def)
    with True Cons show ?thesis by (simp add: replace_from.simps[of _ _ b "c # s"])
  next
    case False
    then have "run (chr c) (b, x # s, []) = []" by (simp add: chr_def)
    from replace_from_skip[OF this] False Cons show ?thesis by simp
  qed
qed

lemma replace_all_chr:
  "replace_all (chr c) (\<lambda>m cs. t) s = concat (map (\<lambda>x. if x = c then t else [x]) s)"
  by (simp add: replace_all_def replace_from_chr)

lemma concat_map_concat_map:
  "concat (map f (concat (map g xs))) = concat (map (\<lambda>x. concat (map f (g x))) xs)"
  by (induction xs) auto

lemma escapeHtml_units: "escapeHtml text = concat (map escape_unit text)"
proof -
  have "concat (map (\<lambda>x. if x = 0x3E then u ''&gt;'' else [x])
          (concat (map (\<lambda>x. if x = 0x3C then u ''&lt;'' else [x])
            (if x = 0x26 then u ''&amp;'' else [x])))) = escape_unit x" for x :: cu
    by (simp add: escape_unit_def u_def)
  then show ?thesis
    by (simp add: escapeHtml_def replace_all_chr concat_map_concat_map)
qed

lemma escape_unit_token: "token (escape_unit c)"
  by (simp add: escape_unit_def token_def entities_def plain_unit_def)

lemma escapeHtml_safe: "safe_html (escapeHtml text)"
  unfolding escapeHtml_units
  by (rule safe_concat) (auto intro: safe_token escape_unit_token)

lemma escapeHtml_no_markup: "0x3C \<notin> set (escapeHtml text) \<and> 0x3E \<notin> set (escapeHtml text)"
  unfolding escapeHtml_units by (auto simp: escape_unit_def u_def split: if_splits)

subsection \<open>The expressions one by one\<close>

lemma safe_between:
  assumes "safe_html (a @ m @ r)" and "a = [] \<or> \<not> inner_last (last a)"
    and "r = [] \<or> \<not> inner_first (hd r)"
  shows "safe_html m"
proof -
  have "cut_ok (rev a) (m @ r)" using assms(2) by (auto simp: cut_ok_def hd_rev)
  with assms(1) have s: "safe_html (m @ r)" using safe_cut by blast
  have "cut_ok (rev m) r" using assms(3) by (auto simp: cut_ok_def)
  with s show ?thesis using safe_cut by blast
qed

lemma safe_drop_plain: "safe_html (p @ s) \<Longrightarrow> \<forall>c\<in>set p. plain_unit c \<Longrightarrow> safe_html s"
  by (induction p) (auto dest: safe_Cons_plain)

lemma keeps_safe_chr:
  assumes "\<not> inner_first c" and "\<not> inner_last c" and "safe_html t"
  shows "keeps_safe (chr c) (\<lambda>m cs. t)"
  unfolding keeps_safe_def
proof (intro allI impI)
  fix b r b2 r2 cs2
  assume "(b2, r2, cs2) \<in> set (run (chr c) (b, r, []))"
  from run_chr_D[OF this] assms
  show "length r2 < length r \<and> cut_ok b r \<and> cut_ok b2 r2 \<and> safe_html t"
    by (auto simp: cut_ok_def)
qed

lemma safe_tags: "safe_html (u ''<br/>'')" "safe_html (u ''</p><p>'')"
proof -
  show "safe_html (u ''<br/>'')" by (rule safe_tag) (simp add: renderer_tags_def)
  have "safe_html (u ''</p>'' @ u ''<p>'')"
    by (intro safe_append safe_tag) (simp_all add: renderer_tags_def)
  then show "safe_html (u ''</p><p>'')" by (simp add: u_def)
qed

lemma keeps_safe_break: "keeps_safe (chr NL) (\<lambda>m cs. u ''<br/>'')"
  using inner_lt_units by (intro keeps_safe_chr safe_tags) simp_all

lemma keeps_safe_blank_lines: "keeps_safe re_blank_lines (\<lambda>m cs. u ''</p><p>'')"
  unfolding keeps_safe_def
proof (intro allI impI)
  fix b r b2 r2 cs2
  assume "(b2, r2, cs2) \<in> set (run re_blank_lines (b, r, []))"
  then have "(b2, r2, cs2) \<in> set (run (Rep True (Suc 1) None (Chr (\<lambda>x. x = NL))) (b, r, []))"
    by (simp add: re_blank_lines_def chr_def numeral_2_eq_2)
  from spans_D[OF run_plus_Chr[OF this]] obtain m where m: "m \<noteq> []" "r = m @ r2"
    "b2 = rev m @ b" "\<forall>c\<in>set m. c = NL" by blast
  from m(1,4) have "hd m = NL" "last m = NL" by auto
  with inner_lt_units have "\<not> inner_first (hd m)" "\<not> inner_last (last m)" by simp_all
  with m(1,2,3) have "cut_ok b r" "cut_ok b2 r2"
    by (simp_all add: cut_ok_def hd_rev)
  with m safe_tags show "length r2 < length r \<and> cut_ok b r \<and> cut_ok b2 r2 \<and> safe_html (u ''</p><p>'')"
    by simp
qed

lemma keeps_safe_partial_row: "keeps_safe re_partial_row (\<lambda>m cs. [])"
  unfolding keeps_safe_def
proof (intro allI impI)
  fix b r b2 r2 cs2
  assume y: "(b2, r2, cs2) \<in> set (run re_partial_row (b, r, []))"
  let ?star = "star (Chr (\<lambda>c. c \<noteq> NL \<and> c \<noteq> PIPE))"
  from y obtain b1 r1 cs1 where a: "(b1, r1, cs1) \<in> set (run (chr NL) (b, r, []))"
    and y1: "(b2, r2, cs2) \<in> set (run (Seq (chr PIPE) (Seq ?star (Eol True))) (b1, r1, cs1))"
    unfolding re_partial_row_def seqs.simps by (blast dest: run_Seq_D)
  from y1 obtain b3 r3 cs3 where c: "(b3, r3, cs3) \<in> set (run (chr PIPE) (b1, r1, cs1))"
    and y3: "(b2, r2, cs2) \<in> set (run (Seq ?star (Eol True)) (b3, r3, cs3))"
    by (blast dest: run_Seq_D)
  from y3 obtain b4 r4 cs4 where d: "(b4, r4, cs4) \<in> set (run ?star (b3, r3, cs3))"
    and e: "(b2, r2, cs2) \<in> set (run (Eol True) (b4, r4, cs4))"
    by (blast dest: run_Seq_D)
  from run_chr_D[OF a] have r: "r = NL # r1" by simp
  from run_chr_D[OF c] have r1: "r1 = PIPE # r3" by simp
  from run_frame[OF d] obtain m where m: "r3 = m @ r4" by blast
  from run_Eol_D[OF e] have e': "r2 = r4" "b2 = b4" "r4 = [] \<or> is_lt (hd r4)" by auto
  from r r1 m e'(1) have "length r2 < length r" by simp
  moreover from r inner_lt_units have "cut_ok b r" by (simp add: cut_ok_def)
  moreover from e' have "cut_ok b2 r2" by (auto simp: cut_ok_def dest: inner_lt)
  ultimately show "length r2 < length r \<and> cut_ok b r \<and> cut_ok b2 r2 \<and> safe_html []"
    by (simp add: safe_Nil)
qed

lemma keeps_safe_delimited:
  assumes d: "\<not> inner_first d" "\<not> inner_last d"
    and t: "safe_html t1" "safe_html t2"
    and shape: "\<And>b r b2 r2 cs2. (b2, r2, cs2) \<in> set (run p (b, r, [])) \<Longrightarrow>
        \<exists>pre m post. r = pre @ m @ post @ r2 \<and> b2 = rev (pre @ m @ post) @ b \<and> cap 1 cs2 = m
          \<and> pre \<noteq> [] \<and> post \<noteq> [] \<and> hd pre = d \<and> last pre = d \<and> hd post = d \<and> last post = d"
  shows "keeps_safe p (\<lambda>m cs. t1 @ cap 1 cs @ t2)"
  unfolding keeps_safe_def
proof (intro allI impI)
  fix b r b2 r2 cs2
  assume s: "safe_html (rev b @ r)" and y: "(b2, r2, cs2) \<in> set (run p (b, r, []))"
  from shape[OF y] obtain pre m post where e: "r = pre @ m @ post @ r2"
    "b2 = rev (pre @ m @ post) @ b" "cap 1 cs2 = m" "pre \<noteq> []" "post \<noteq> []"
    "hd pre = d" "last pre = d" "hd post = d" "last post = d" by blast
  from e have "length r2 < length r" by simp
  moreover from e d have "cut_ok b r" by (simp add: cut_ok_def)
  moreover from e d have "cut_ok b2 r2" by (simp add: cut_ok_def hd_rev)
  moreover have "safe_html m"
  proof (rule safe_between)
    show "safe_html ((rev b @ pre) @ m @ (post @ r2))" using s e(1) by simp
    show "rev b @ pre = [] \<or> \<not> inner_last (last (rev b @ pre))" using e d by simp
    show "post @ r2 = [] \<or> \<not> inner_first (hd (post @ r2))" using e d by simp
  qed
  ultimately show "length r2 < length r \<and> cut_ok b r \<and> cut_ok b2 r2
      \<and> safe_html (t1 @ cap 1 cs2 @ t2)"
    using t e(3) by (simp add: safe_append)
qed

lemma keeps_safe_bold:
  "keeps_safe re_bold (\<lambda>m cs. u ''<strong>'' @ cap 1 cs @ u ''</strong>'')"
proof (rule keeps_safe_delimited[of "0x2A"])
  show "\<not> inner_first 0x2A" "\<not> inner_last 0x2A" by (rule inner_units)+
  show "safe_html (u ''<strong>'')" "safe_html (u ''</strong>'')"
    by (rule safe_tag, simp add: renderer_tags_def)+
next
  fix b r b2 r2 cs2
  assume y: "(b2, r2, cs2) \<in> set (run re_bold (b, r, []))"
  let ?g = "Grp 1 (plus_lazy dot)"
  from y obtain b1 r1 cs1 where a1: "(b1, r1, cs1) \<in> set (run (chr 0x2A) (b, r, []))"
    and y1: "(b2, r2, cs2) \<in> set (run (Seq (chr 0x2A) (Seq ?g (Seq (chr 0x2A) (chr 0x2A)))) (b1, r1, cs1))"
    unfolding re_bold_def seqs.simps by (blast dest: run_Seq_D)
  from y1 obtain b3 r3 cs3 where a2: "(b3, r3, cs3) \<in> set (run (chr 0x2A) (b1, r1, cs1))"
    and y3: "(b2, r2, cs2) \<in> set (run (Seq ?g (Seq (chr 0x2A) (chr 0x2A))) (b3, r3, cs3))"
    by (blast dest: run_Seq_D)
  from y3 obtain b4 r4 cs4 where g: "(b4, r4, cs4) \<in> set (run ?g (b3, r3, cs3))"
    and y4: "(b2, r2, cs2) \<in> set (run (Seq (chr 0x2A) (chr 0x2A)) (b4, r4, cs4))"
    by (blast dest: run_Seq_D)
  from y4 obtain b5 r5 cs5 where a3: "(b5, r5, cs5) \<in> set (run (chr 0x2A) (b4, r4, cs4))"
    and a4: "(b2, r2, cs2) \<in> set (run (chr 0x2A) (b5, r5, cs5))"
    by (blast dest: run_Seq_D)
  from run_chr_D[OF a1] have e1: "r = 0x2A # r1" "b1 = 0x2A # b" by simp_all
  from run_chr_D[OF a2] have e2: "r1 = 0x2A # r3" "b3 = 0x2A # b1" by simp_all
  from run_Grp_D[OF g] obtain m cs0 where e3: "r3 = m @ r4" "b4 = rev m @ b3" "cs4 = (1, m) # cs0"
    by blast
  from run_chr_D[OF a3] have e4: "r4 = 0x2A # r5" "b5 = 0x2A # b4" "cs5 = cs4" by simp_all
  from run_chr_D[OF a4] have e5: "r5 = 0x2A # r2" "b2 = 0x2A # b5" "cs2 = cs5" by simp_all
  from e1 e2 e3 e4 e5 have "r = [0x2A, 0x2A] @ m @ [0x2A, 0x2A] @ r2
      \<and> b2 = rev ([0x2A, 0x2A] @ m @ [0x2A, 0x2A]) @ b \<and> cap 1 cs2 = m"
    by (simp add: cap_hd)
  then show "\<exists>pre m post. r = pre @ m @ post @ r2 \<and> b2 = rev (pre @ m @ post) @ b \<and> cap 1 cs2 = m
          \<and> pre \<noteq> [] \<and> post \<noteq> [] \<and> hd pre = 0x2A \<and> last pre = 0x2A \<and> hd post = 0x2A \<and> last post = 0x2A"
    by (intro exI[of _ "[0x2A, 0x2A]"] exI[of _ m]) simp
qed

lemma keeps_safe_single_delimiter:
  assumes "\<not> inner_first d" "\<not> inner_last d" "safe_html t1" "safe_html t2"
  shows "keeps_safe (seqs [chr d, Grp 1 q, chr d]) (\<lambda>m cs. t1 @ cap 1 cs @ t2)"
proof (rule keeps_safe_delimited[of d, OF assms])
  fix b r b2 r2 cs2
  assume y: "(b2, r2, cs2) \<in> set (run (seqs [chr d, Grp 1 q, chr d]) (b, r, []))"
  from y obtain b1 r1 cs1 where a1: "(b1, r1, cs1) \<in> set (run (chr d) (b, r, []))"
    and y1: "(b2, r2, cs2) \<in> set (run (Seq (Grp 1 q) (chr d)) (b1, r1, cs1))"
    unfolding seqs.simps by (blast dest: run_Seq_D)
  from y1 obtain b4 r4 cs4 where g: "(b4, r4, cs4) \<in> set (run (Grp 1 q) (b1, r1, cs1))"
    and a4: "(b2, r2, cs2) \<in> set (run (chr d) (b4, r4, cs4))"
    by (blast dest: run_Seq_D)
  from run_chr_D[OF a1] have e1: "r = d # r1" "b1 = d # b" by simp_all
  from run_Grp_D[OF g] obtain m cs0 where e3: "r1 = m @ r4" "b4 = rev m @ b1" "cs4 = (1, m) # cs0"
    by blast
  from run_chr_D[OF a4] have e5: "r4 = d # r2" "b2 = d # b4" "cs2 = cs4" by simp_all
  from e1 e3 e5 have "r = [d] @ m @ [d] @ r2 \<and> b2 = rev ([d] @ m @ [d]) @ b \<and> cap 1 cs2 = m"
    by (simp add: cap_hd)
  then show "\<exists>pre m post. r = pre @ m @ post @ r2 \<and> b2 = rev (pre @ m @ post) @ b \<and> cap 1 cs2 = m
          \<and> pre \<noteq> [] \<and> post \<noteq> [] \<and> hd pre = d \<and> last pre = d \<and> hd post = d \<and> last post = d"
    by (intro exI[of _ "[d]"] exI[of _ m]) simp
qed

lemma keeps_safe_em: "keeps_safe re_em (\<lambda>m cs. u ''<em>'' @ cap 1 cs @ u ''</em>'')"
  unfolding re_em_def
  by (rule keeps_safe_single_delimiter) (simp_all add: inner_units safe_tag renderer_tags_def)

lemma keeps_safe_code: "keeps_safe re_code (\<lambda>m cs. u ''<code>'' @ cap 1 cs @ u ''</code>'')"
  unfolding re_code_def
  by (rule keeps_safe_single_delimiter) (simp_all add: inner_units safe_tag renderer_tags_def)

lemma run_Rep_Chr_pos:
  assumes "0 < mn" and "mx \<noteq> Some 0" and "y \<in> set (run (Rep g mn mx (Chr P)) x)"
  shows "spans (\<lambda>m. \<forall>c\<in>set m. P c) x y"
proof (rule run_Rep_rel_pos[OF _ _ assms])
  fix x y :: mstate assume "y \<in> set (run (Chr P) x)"
  then show "spans (\<lambda>m. \<forall>c\<in>set m. P c) x y"
    by (cases x; cases y) (auto simp: spans_def split: list.splits if_splits)
next
  fix x y z :: mstate
  assume "spans (\<lambda>m. \<forall>c\<in>set m. P c) x y" "spans (\<lambda>m. \<forall>c\<in>set m. P c) y z"
  then show "spans (\<lambda>m. \<forall>c\<in>set m. P c) x z" by (rule spans_trans[rotated]) auto
qed

lemma spans_mono: "spans Q x y \<Longrightarrow> (\<And>m. Q m \<Longrightarrow> Q' m) \<Longrightarrow> spans Q' x y"
  by (cases x; cases y) (auto simp: spans_def)

lemma lit_run:
  "(b', r', cs') \<in> set (run (lit w) (b, r, cs)) \<Longrightarrow> r = u w @ r' \<and> b' = rev (u w) @ b \<and> cs' = cs"
proof (induction w arbitrary: b r)
  case Nil
  then show ?case by (simp add: lit_def u_def)
next
  case (Cons x w)
  show ?case
  proof (cases w)
    case Nil
    with Cons.prems show ?thesis
      by (auto simp: lit_def chr_def u_def split: list.splits if_splits)
  next
    case (Cons y zs)
    with Cons.prems have "(b', r', cs') \<in> set (run (Seq (chr (of_char x)) (lit w)) (b, r, cs))"
      by (simp add: lit_def)
    then obtain b1 r1 cs1 where a: "(b1, r1, cs1) \<in> set (run (chr (of_char x)) (b, r, cs))"
      and rest: "(b', r', cs') \<in> set (run (lit w) (b1, r1, cs1))"
      by (blast dest: run_Seq_D)
    from run_chr_D[OF a] have e: "r = of_char x # r1" "b1 = of_char x # b" "cs1 = cs" by simp_all
    from rest e(3) have "(b', r', cs') \<in> set (run (lit w) (b1, r1, cs))" by simp
    from Cons.IH[OF this] e show ?thesis by (simp add: u_def)
  qed
qed

lemma safe_between_cuts:
  assumes "safe_html (a @ m @ r)" and "cut_ok (rev a) (m @ r)" and "cut_ok (rev m) r"
  shows "safe_html m"
proof -
  from assms(1,2) have "safe_html (m @ r)" using safe_cut by blast
  with assms(3) show ?thesis using safe_cut by blast
qed

lemma keeps_safe_span:
  assumes shape: "\<And>b r y. y \<in> set (run p (b, r, [])) \<Longrightarrow> spans Q (b, r, []) y"
    and ends: "\<And>m. Q m \<Longrightarrow> m \<noteq> [] \<Longrightarrow> \<not> inner_first (hd m) \<and> \<not> inner_last (last m)"
    and repl: "\<And>m cs. safe_html m \<Longrightarrow> safe_html (f m cs)"
  shows "keeps_safe p f"
  unfolding keeps_safe_def
proof (intro allI impI)
  fix b r b2 r2 cs2
  assume s: "safe_html (rev b @ r)" and y: "(b2, r2, cs2) \<in> set (run p (b, r, []))"
  from spans_D[OF shape[OF y]] obtain m where m: "m \<noteq> []" "r = m @ r2" "b2 = rev m @ b" "Q m"
    by blast
  from ends[OF m(4,1)] have e: "\<not> inner_first (hd m)" "\<not> inner_last (last m)" by simp_all
  from m e have c1: "cut_ok b r" and c2: "cut_ok b2 r2" by (simp_all add: cut_ok_def hd_rev)
  have "safe_html m"
  proof (rule safe_between_cuts)
    show "safe_html (rev b @ m @ r2)" using s m(2) by simp
    show "cut_ok (rev (rev b)) (m @ r2)" using c1 m(2) by simp
    show "cut_ok (rev m) r2" using e(2) m(1) by (simp add: cut_ok_def hd_rev)
  qed
  then have "safe_html (f m cs2)" by (rule repl)
  moreover from m have "take (length r - length r2) r = m" by simp
  ultimately show "length r2 < length r \<and> cut_ok b r \<and> cut_ok b2 r2
      \<and> safe_html (f (take (length r - length r2) r) cs2)"
    using m(1,2) c1 c2 by simp
qed

lemma keeps_safe_line:
  assumes lead: "\<And>x y. y \<in> set (run X x) \<Longrightarrow> spans (\<lambda>m. \<forall>c\<in>set m. plain_unit c) x y"
    and t: "safe_html t1" "safe_html t2"
  shows "keeps_safe (seqs [Bol True, X, plus ws, Grp 1 q, Eol True]) (\<lambda>m cs. t1 @ cap 1 cs @ t2)"
  unfolding keeps_safe_def
proof (intro allI impI)
  fix b r b2 r2 cs2
  assume s: "safe_html (rev b @ r)"
    and y: "(b2, r2, cs2) \<in> set (run (seqs [Bol True, X, plus ws, Grp 1 q, Eol True]) (b, r, []))"
  from y obtain b0 r0 cs0 where a0: "(b0, r0, cs0) \<in> set (run (Bol True) (b, r, []))"
    and y0: "(b2, r2, cs2) \<in> set (run (Seq X (Seq (plus ws) (Seq (Grp 1 q) (Eol True)))) (b0, r0, cs0))"
    unfolding seqs.simps by (blast dest: run_Seq_D)
  from run_Bol_D[OF a0] have e0: "b0 = b" "r0 = r" "b = [] \<or> is_lt (hd b)" by auto
  from y0 obtain b1 r1 cs1 where a1: "(b1, r1, cs1) \<in> set (run X (b0, r0, cs0))"
    and y1: "(b2, r2, cs2) \<in> set (run (Seq (plus ws) (Seq (Grp 1 q) (Eol True))) (b1, r1, cs1))"
    by (blast dest: run_Seq_D)
  from spans_D[OF lead[OF a1]] e0 obtain h where h: "h \<noteq> []" "r = h @ r1" "\<forall>c\<in>set h. plain_unit c"
    by auto
  from y1 obtain b3 r3 cs3 where a3: "(b3, r3, cs3) \<in> set (run (plus ws) (b1, r1, cs1))"
    and y3: "(b2, r2, cs2) \<in> set (run (Seq (Grp 1 q) (Eol True)) (b3, r3, cs3))"
    by (blast dest: run_Seq_D)
  from a3 have "spans (\<lambda>m. \<forall>c\<in>set m. is_ws c) (b1, r1, cs1) (b3, r3, cs3)"
    unfolding ws_def One_nat_def by (rule run_plus_Chr)
  from spans_D[OF this] obtain w where w: "r1 = w @ r3" "\<forall>c\<in>set w. is_ws c" by blast
  from y3 obtain b4 r4 cs4 where g: "(b4, r4, cs4) \<in> set (run (Grp 1 q) (b3, r3, cs3))"
    and e: "(b2, r2, cs2) \<in> set (run (Eol True) (b4, r4, cs4))"
    by (blast dest: run_Seq_D)
  from run_Grp_D[OF g] obtain m cs5 where m: "r3 = m @ r4" "cs4 = (1, m) # cs5" by blast
  from run_Eol_D[OF e] have e4: "b2 = b4" "r2 = r4" "cs2 = cs4" "r4 = [] \<or> is_lt (hd r4)" by auto
  from h w m e4 have r: "r = (h @ w) @ m @ r2" by simp
  from r have "length r = length h + length w + length m + length r2" by simp
  with h(1) have p0: "length r2 < length r" by (cases h) auto
  from e0(3) have c1: "cut_ok b r" by (auto simp: cut_ok_def dest: inner_lt)
  from e4 have c2: "cut_ok b2 r2" by (auto simp: cut_ok_def dest: inner_lt)
  from e4 have c3: "cut_ok (rev m) r2" by (auto simp: cut_ok_def dest: inner_lt)
  from s c1 have "safe_html r" using safe_cut[of "rev b" r] by simp
  with r have "safe_html ((h @ w) @ m @ r2)" by simp
  moreover from h(3) w(2) have "\<forall>c\<in>set (h @ w). plain_unit c" by (auto simp: ws_plain)
  ultimately have "safe_html (m @ r2)" by (rule safe_drop_plain)
  with c3 have "safe_html m" using safe_cut by blast
  moreover from m(2) e4(3) have "cap 1 cs2 = m" by (simp add: cap_hd)
  ultimately show "length r2 < length r \<and> cut_ok b r \<and> cut_ok b2 r2 \<and> safe_html (t1 @ cap 1 cs2 @ t2)"
    using p0 c1 c2 t by (simp add: safe_append)
qed

lemma keeps_safe_heading:
  \<open>keeps_safe re_heading
     (\<lambda>m cs. u ''<strong style="font-size:1.05em">'' @ cap 1 cs @ u ''</strong>'')\<close>
  unfolding re_heading_def
proof (rule keeps_safe_line)
  fix x y :: mstate
  assume "y \<in> set (run (Rep True 1 (Some 3) (chr 0x23)) x)"
  then have "spans (\<lambda>m. \<forall>c\<in>set m. c = 0x23) x y"
    unfolding chr_def by (intro run_Rep_Chr_pos[of 1 "Some 3"]) simp_all
  then show "spans (\<lambda>m. \<forall>c\<in>set m. plain_unit c) x y"
    by (rule spans_mono) (auto simp: plain_unit_def)
qed (rule safe_tag, simp add: renderer_tags_def)+

lemma keeps_safe_bullet:
  "keeps_safe re_bullet (\<lambda>m cs. u ''<li>'' @ cap 1 cs @ u ''</li>'')"
  unfolding re_bullet_def
proof (rule keeps_safe_line)
  fix x y :: mstate
  assume "y \<in> set (run (Chr (\<lambda>c. c = 0x2D \<or> c = 0x2022)) x)"
  then show "spans (\<lambda>m. \<forall>c\<in>set m. plain_unit c) x y"
    by (cases x; cases y) (auto simp: spans_def plain_unit_def split: list.splits if_splits)
qed (rule safe_tag, simp add: renderer_tags_def)+

lemma run_opt_chr:
  assumes "(b', r', cs') \<in> set (run (opt (chr c)) (b, r, cs))"
  shows "(r = r' \<and> b' = b) \<or> (r = c # r' \<and> b' = c # b)"
proof -
  from assms have "(b', r', cs') = (b, r, cs)
      \<or> spans (\<lambda>m. \<forall>x\<in>set m. x = c) (b, r, cs) (b', r', cs')"
    unfolding chr_def by (rule run_Rep_Chr)
  then show ?thesis
  proof
    assume "(b', r', cs') = (b, r, cs)"
    then show ?thesis by simp
  next
    assume "spans (\<lambda>m. \<forall>x\<in>set m. x = c) (b, r, cs) (b', r', cs')"
    from spans_D[OF this] obtain m where m: "m \<noteq> []" "r = m @ r'" "b' = rev m @ b" by blast
    from assms have "length r - length r' \<le> 1"
      by (auto simp: run.simps(8) chr_def split: list.splits if_splits)
    with m have "length m = 1" by (cases m) auto
    then obtain x where mx: "m = [x]" by (cases m) auto
    from assms m mx have "x = c"
      by (auto simp: run.simps(8) chr_def split: list.splits if_splits)
    with m mx show ?thesis by simp
  qed
qed

lemma items_shape:
  assumes "y \<in> set (run re_items (b, r, []))"
  shows "spans item_text (b, r, []) y"
  using _ _ _ _ assms[unfolded re_items_def]
proof (rule run_Rep_rel_pos)
  fix x y :: mstate
  assume y: "y \<in> set (run (Grp 1 (seqs [lit ''<li>'', star_lazy dot, lit ''</li>'', opt (chr NL)])) x)"
  obtain b r cs b' r' cs' where e: "x = (b, r, cs)" "y = (b', r', cs')" by (cases x; cases y) auto
  from run_Grp_D[OF y[unfolded e]] obtain m cs0 where m: "r = m @ r'" "b' = rev m @ b"
    and i: "(b', r', cs0) \<in> set (run (seqs [lit ''<li>'', star_lazy dot, lit ''</li>'', opt (chr NL)]) (b, r, cs))"
    by blast
  from i obtain b1 r1 cs1 where a1: "(b1, r1, cs1) \<in> set (run (lit ''<li>'') (b, r, cs))"
    and y1: "(b', r', cs0) \<in> set (run (Seq (star_lazy dot) (Seq (lit ''</li>'') (opt (chr NL)))) (b1, r1, cs1))"
    unfolding seqs.simps by (blast dest: run_Seq_D)
  from y1 obtain b2 r2 cs2 where a2: "(b2, r2, cs2) \<in> set (run (star_lazy dot) (b1, r1, cs1))"
    and y2: "(b', r', cs0) \<in> set (run (Seq (lit ''</li>'') (opt (chr NL))) (b2, r2, cs2))"
    by (blast dest: run_Seq_D)
  from y2 obtain b3 r3 cs3 where a3: "(b3, r3, cs3) \<in> set (run (lit ''</li>'') (b2, r2, cs2))"
    and a4: "(b', r', cs0) \<in> set (run (opt (chr NL)) (b3, r3, cs3))"
    by (blast dest: run_Seq_D)
  from lit_run[OF a1] have e1: "r = u ''<li>'' @ r1" by simp
  from run_frame[OF a2] obtain d where e2: "r1 = d @ r2" by blast
  from lit_run[OF a3] have e3: "r2 = u ''</li>'' @ r3" by simp
  from run_opt_chr[OF a4] have e4: "r3 = r' \<or> r3 = NL # r'" by auto
  from e1 e2 e3 e4 m(1) have "m = u ''<li>'' @ d @ u ''</li>'' \<or> m = u ''<li>'' @ d @ u ''</li>'' @ [NL]"
    by auto
  then have "m \<noteq> [] \<and> item_text m" by (auto simp: item_text_def u_def)
  with m e show "spans item_text x y" by (auto simp: spans_def)
next
  fix x y z :: mstate
  assume "spans item_text x y" "spans item_text y z"
  then show "spans item_text x z"
    by (rule spans_trans[rotated]) (auto simp: item_text_def)
qed simp_all

lemma keeps_safe_items: "keeps_safe re_items (\<lambda>m cs. u ''<ul>'' @ m @ u ''</ul>'')"
proof (rule keeps_safe_span[of _ item_text])
  show "\<And>b r y. y \<in> set (run re_items (b, r, [])) \<Longrightarrow> spans item_text (b, r, []) y"
    by (rule items_shape)
  show "\<not> inner_first (hd m) \<and> \<not> inner_last (last m)" if "item_text m" for m
    using that inner_units inner_lt_units by (auto simp: item_text_def)
  have a: "safe_html (u ''<ul>'')" "safe_html (u ''</ul>'')"
    by (rule safe_tag, simp add: renderer_tags_def)+
  show "safe_html (u ''<ul>'' @ m @ u ''</ul>'')" if "safe_html m" for m
    using a that by (intro safe_append)
qed

lemma rows_shape:
  assumes "y \<in> set (run re_table_block (b, r, []))"
  shows "spans rows_text (b, r, []) y"
proof -
  let ?row = "seqs [Bol True, chr PIPE, plus dot, chr PIPE, opt (chr NL)]"
  obtain b' r' cs' where ye: "y = (b', r', cs')" by (cases y) auto
  from run_Grp_D[OF assms[unfolded re_table_block_def ye]] obtain cs0 where
    i: "(b', r', cs0) \<in> set (run (Rep True 1 None ?row) (b, r, []))" by blast
  have "spans rows_text (b, r, []) (b', r', cs0)"
    using _ _ _ _ i
  proof (rule run_Rep_rel_pos)
    fix x y :: mstate
    assume y: "y \<in> set (run ?row x)"
    obtain b r cs b' r' cs' where e: "x = (b, r, cs)" "y = (b', r', cs')" by (cases x; cases y) auto
    from run_frame[OF y[unfolded e]] obtain m where m: "r = m @ r'" "b' = rev m @ b" by blast
    from y[unfolded e] obtain b0 r0 cs0 where a0: "(b0, r0, cs0) \<in> set (run (Bol True) (b, r, cs))"
      and y0: "(b', r', cs') \<in> set (run (Seq (chr PIPE) (Seq (plus dot) (Seq (chr PIPE) (opt (chr NL))))) (b0, r0, cs0))"
      unfolding seqs.simps by (blast dest: run_Seq_D)
    from y0 obtain b1 r1 cs1 where a1: "(b1, r1, cs1) \<in> set (run (chr PIPE) (b0, r0, cs0))"
      and y1: "(b', r', cs') \<in> set (run (Seq (plus dot) (Seq (chr PIPE) (opt (chr NL)))) (b1, r1, cs1))"
      by (blast dest: run_Seq_D)
    from y1 obtain b2 r2 cs2 where a2: "(b2, r2, cs2) \<in> set (run (plus dot) (b1, r1, cs1))"
      and y2: "(b', r', cs') \<in> set (run (Seq (chr PIPE) (opt (chr NL))) (b2, r2, cs2))"
      by (blast dest: run_Seq_D)
    from y2 obtain b3 r3 cs3 where a3: "(b3, r3, cs3) \<in> set (run (chr PIPE) (b2, r2, cs2))"
      and a4: "(b', r', cs') \<in> set (run (opt (chr NL)) (b3, r3, cs3))"
      by (blast dest: run_Seq_D)
    from run_Bol_D[OF a0] have e0: "r0 = r" by simp
    from run_chr_D[OF a1] have e1: "r0 = PIPE # r1" by simp
    from run_frame[OF a2] obtain d where e2: "r1 = d @ r2" by blast
    from run_chr_D[OF a3] have e3: "r2 = PIPE # r3" by simp
    from run_opt_chr[OF a4] have e4: "r3 = r' \<or> r3 = NL # r'" by auto
    from e0 e1 e2 e3 e4 m(1) have "m = PIPE # d @ [PIPE] \<or> m = PIPE # d @ [PIPE, NL]"
      by auto
    then have "m \<noteq> [] \<and> rows_text m" by (auto simp: rows_text_def)
    with m e show "spans rows_text x y" by (auto simp: spans_def)
  next
    fix x y z :: mstate
    assume "spans rows_text x y" "spans rows_text y z"
    then show "spans rows_text x z"
      by (rule spans_trans[rotated]) (auto simp: rows_text_def)
  qed simp_all
  with ye show ?thesis by (simp add: spans_def)
qed

subsection \<open>Tables\<close>

lemma cells_subset: "set (cells row) \<subseteq> set (map trim (split_on PIPE row))"
  by (auto simp: cells_def Let_def in_set_enumerate_eq)

lemma safe_rows:
  assumes "safe_html m"
  shows "\<forall>row\<in>set (map trim (split_on NL (trim m))). safe_html row"
proof -
  from assms have "safe_html (trim m)" by (rule safe_trim)
  then have "\<forall>p\<in>set (split_on NL (trim m)). safe_html p"
    using inner_lt_units by (intro safe_split) (simp_all add: plain_unit_def)
  then show ?thesis by (auto intro: safe_trim)
qed

lemma safe_cells:
  assumes "safe_html row"
  shows "\<forall>c\<in>set (cells row). safe_html c"
proof -
  from assms have "\<forall>p\<in>set (split_on PIPE row). safe_html p"
    using inner_units by (intro safe_split) (simp_all add: plain_unit_def)
  then have "\<forall>c\<in>set (map trim (split_on PIPE row)). safe_html c" by (auto intro: safe_trim)
  with cells_subset[of row] show ?thesis by blast
qed

lemma table_tags:
  \<open>u ''<table class="qb-table"><thead><tr>'' = u ''<table class="qb-table">'' @ u ''<thead>'' @ u ''<tr>''\<close>
  "u ''</tr></thead><tbody>'' = u ''</tr>'' @ u ''</thead>'' @ u ''<tbody>''"
  "u ''</tbody></table>'' = u ''</tbody>'' @ u ''</table>''"
  by (simp_all add: u_def)

lemma safe_table_tags:
  \<open>safe_html (u ''<table class="qb-table"><thead><tr>'')\<close>
  "safe_html (u ''</tr></thead><tbody>'')" "safe_html (u ''</tbody></table>'')"
  "safe_html (u ''<th>'')" "safe_html (u ''</th>'')" "safe_html (u ''<td>'')"
  "safe_html (u ''</td>'')" "safe_html (u ''<tr>'')" "safe_html (u ''</tr>'')"
  unfolding table_tags
  by (intro safe_append safe_tag, simp_all add: renderer_tags_def)+

lemma renderMarkdownTable_safe:
  assumes "safe_html m"
  shows "safe_html (renderMarkdownTable m)"
proof -
  let ?rows = "filter (\<lambda>r. startsWith PIPE r \<and> endsWith PIPE r) (map trim (split_on NL (trim m)))"
  have rows: "\<forall>row\<in>set ?rows. safe_html row" using safe_rows[OF assms] by auto
  show ?thesis
  proof (cases ?rows)
    case Nil
    with assms show ?thesis by (simp add: renderMarkdownTable_def)
  next
    case (Cons header rest)
    show ?thesis
    proof (cases rest)
      case Nil
      with Cons assms show ?thesis by (simp add: renderMarkdownTable_def)
    next
      case (Cons sep body)
      with \<open>?rows = header # rest\<close> have r: "?rows = header # sep # body" by simp
      with rows have h: "safe_html header" and b: "\<forall>row\<in>set body. safe_html row" by auto
      have th: "safe_html (concat (map (\<lambda>c. u ''<th>'' @ c @ u ''</th>'') (cells header)))"
        using safe_cells[OF h] safe_table_tags
        by (intro safe_concat) (auto intro!: safe_append)
      have tr: "safe_html (u ''<tr>'' @ concat (map (\<lambda>c. u ''<td>'' @ c @ u ''</td>'') (cells row)) @ u ''</tr>'')"
        if "row \<in> set body" for row
      proof -
        from b that have "safe_html row" by blast
        from safe_cells[OF this] safe_table_tags
        have "safe_html (concat (map (\<lambda>c. u ''<td>'' @ c @ u ''</td>'') (cells row)))"
          by (intro safe_concat) (auto intro!: safe_append)
        with safe_table_tags show ?thesis by (intro safe_append)
      qed
      then have trs: "safe_html (concat (map (\<lambda>r. u ''<tr>''
                            @ concat (map (\<lambda>c. u ''<td>'' @ c @ u ''</td>'') (cells r))
                            @ u ''</tr>'') body))"
        by (intro safe_concat) auto
      from th trs safe_table_tags show ?thesis
        unfolding renderMarkdownTable_def Let_def r list.case
        by (intro safe_append)
    qed
  qed
qed

lemma keeps_safe_table: "keeps_safe re_table_block (\<lambda>m cs. renderMarkdownTable m)"
proof (rule keeps_safe_span[of _ rows_text])
  show "\<And>b r y. y \<in> set (run re_table_block (b, r, [])) \<Longrightarrow> spans rows_text (b, r, []) y"
    by (rule rows_shape)
  show "\<not> inner_first (hd m) \<and> \<not> inner_last (last m)" if "rows_text m" for m
    using that inner_units inner_lt_units by (auto simp: rows_text_def)
  show "safe_html (renderMarkdownTable m)" if "safe_html m" for m
    using that by (rule renderMarkdownTable_safe)
qed

lemma keeps_safe_all: "keeps_safe re_all (\<lambda>m cs. u ''<p>'' @ cap 1 cs @ u ''</p>'')"
  unfolding keeps_safe_def
proof (intro allI impI)
  fix b r b2 r2 cs2
  assume s: "safe_html (rev b @ r)" and y: "(b2, r2, cs2) \<in> set (run re_all (b, r, []))"
  from y obtain b0 r0 cs0 where a0: "(b0, r0, cs0) \<in> set (run (Bol False) (b, r, []))"
    and y0: "(b2, r2, cs2) \<in> set (run (Seq (Grp 1 (plus dot)) (Eol False)) (b0, r0, cs0))"
    unfolding re_all_def seqs.simps by (blast dest: run_Seq_D)
  from run_Bol_D[OF a0] have e0: "b0 = b" "r0 = r" "cs0 = []" "b = []" by auto
  from y0 obtain b1 r1 cs1 where g: "(b1, r1, cs1) \<in> set (run (Grp 1 (plus dot)) (b0, r0, cs0))"
    and e: "(b2, r2, cs2) \<in> set (run (Eol False) (b1, r1, cs1))"
    by (blast dest: run_Seq_D)
  from run_Grp_D[OF g] obtain m cs3 where m: "r0 = m @ r1" "cs1 = (1, m) # cs3"
    and i: "(b1, r1, cs3) \<in> set (run (plus dot) (b0, r0, cs0))" by blast
  from i have "spans (\<lambda>m. \<forall>c\<in>set m. \<not> is_lt c) (b0, r0, cs0) (b1, r1, cs3)"
    unfolding dot_def One_nat_def by (rule run_plus_Chr)
  from spans_D[OF this] obtain m' where m': "m' \<noteq> []" "r0 = m' @ r1" by blast
  from run_Eol_D[OF e] have e1: "b2 = b1" "r2 = r1" "cs2 = cs1" "r1 = []" by auto
  from m m' e0 e1 have r: "r = m" "m \<noteq> []" "r2 = []" "cap 1 cs2 = m" by (simp_all add: cap_hd)
  from s e0 r have "safe_html m" by simp
  moreover have "safe_html (u ''<p>'')" "safe_html (u ''</p>'')"
    by (rule safe_tag, simp add: renderer_tags_def)+
  ultimately have "safe_html (u ''<p>'' @ m @ u ''</p>'')"
    by (intro safe_append)
  with r e0 show "length r2 < length r \<and> cut_ok b r \<and> cut_ok b2 r2
      \<and> safe_html (u ''<p>'' @ cap 1 cs2 @ u ''</p>'')"
    by (simp add: cut_ok_def)
qed

subsection \<open>The whole renderer\<close>

lemma inlineFormat_safe: "safe_html s \<Longrightarrow> safe_html (inlineFormat s)"
  unfolding inlineFormat_def
  by (intro replace_first_safe replace_all_safe keeps_safe_all keeps_safe_break
        keeps_safe_blank_lines keeps_safe_items keeps_safe_bullet keeps_safe_heading
        keeps_safe_code keeps_safe_em keeps_safe_bold)

lemma formatBotText_safe: "safe_html (formatBotText text)"
  unfolding formatBotText_def dropPartialRow_def
  by (intro inlineFormat_safe replace_all_safe replace_first_safe keeps_safe_table
        keeps_safe_partial_row escapeHtml_safe)

subsection \<open>What a safe text cannot contain\<close>

lemma tags_first_unit:
  "list_all (\<lambda>t. hd t = 0x3C) renderer_tags \<and> list_all (\<lambda>t. hd t = 0x26) entities"
  by code_simp

lemma tags_not_script:
  "list_all (\<lambda>t. take (min (length t) 7) t \<noteq> take (min (length t) 7) (u ''<script'')) renderer_tags
   \<and> list_all (\<lambda>t. take (min (length t) 4) t \<noteq> take (min (length t) 4) (u ''<img'')) renderer_tags"
  by code_simp

lemma safe_first_token:
  assumes "safe_html (c # r)" and "\<not> plain_unit c"
  shows "\<exists>t\<in>set (renderer_tags @ entities). \<exists>rest. c # r = t @ rest"
proof -
  from assms(1) obtain ts where ts: "c # r = concat ts" "\<forall>t\<in>set ts. token t"
    unfolding safe_html_def by blast
  from ts(1) obtain t ts' where c: "ts = t # ts'" by (cases ts) auto
  with ts(2) have tk: "token t" by simp
  from tk have ne: "t \<noteq> []" by (rule token_nonempty)
  with ts(1) c have h: "hd t = c" by (cases t) auto
  with assms(2) ne have "\<not> (\<exists>x. t = [x] \<and> plain_unit x)" by auto
  with tk have "t \<in> set (renderer_tags @ entities)" by (auto simp: token_def)
  moreover from ts(1) c have "c # r = t @ concat ts'" by simp
  ultimately show ?thesis by blast
qed

lemma safe_at_special:
  assumes "safe_html s" and "i < length s" and "s ! i = 0x3C \<or> s ! i = 0x26"
  shows "\<exists>t\<in>set (renderer_tags @ entities). hd t = s ! i \<and> occurs_at t s i"
proof -
  from assms(2) have d: "drop i s = s ! i # drop (Suc i) s" by (simp add: Cons_nth_drop_Suc)
  from assms(3) inner_units have "\<not> inner_first (s ! i)" by auto
  with d have "cut_ok (rev (take i s)) (drop i s)" by (simp add: cut_ok_def)
  moreover from assms(1) have "safe_html (take i s @ drop i s)" by simp
  ultimately have "safe_html (drop i s)" using safe_cut by blast
  with d have "safe_html (s ! i # drop (Suc i) s)" by simp
  moreover from assms(3) have "\<not> plain_unit (s ! i)" by (auto simp: plain_unit_def)
  ultimately obtain t rest where t: "t \<in> set (renderer_tags @ entities)"
    "s ! i # drop (Suc i) s = t @ rest"
    using safe_first_token by blast
  from t(2) d have e: "drop i s = t @ rest" by simp
  then have "occurs_at t s i" by (simp add: occurs_at_def)
  moreover from tag_shape[OF t(1)] have "t \<noteq> []" by auto
  with e d have "hd t = s ! i" by (cases t) auto
  ultimately show ?thesis using t(1) by blast
qed

lemma safe_lt_is_tag:
  assumes "safe_html s" and "i < length s" and "s ! i = 0x3C"
  shows "\<exists>t\<in>set renderer_tags. occurs_at t s i"
proof -
  from safe_at_special[OF assms(1,2)] assms(3) obtain t where
    t: "t \<in> set (renderer_tags @ entities)" "hd t = 0x3C" "occurs_at t s i" by auto
  from tags_first_unit t(2) have "t \<notin> set entities" by (auto simp: list_all_iff)
  with t show ?thesis by auto
qed

lemma safe_amp_is_entity:
  assumes "safe_html s" and "i < length s" and "s ! i = 0x26"
  shows "\<exists>t\<in>set entities. occurs_at t s i"
proof -
  from safe_at_special[OF assms(1,2)] assms(3) obtain t where
    t: "t \<in> set (renderer_tags @ entities)" "hd t = 0x26" "occurs_at t s i" by auto
  from tags_first_unit t(2) have "t \<notin> set renderer_tags" by (auto simp: list_all_iff)
  with t show ?thesis by auto
qed

lemma occurs_agree:
  assumes "occurs_at p s i" and "occurs_at q s i"
  shows "take (min (length p) (length q)) p = take (min (length p) (length q)) q"
proof -
  from assms have p: "take (length p) (drop i s) = p" and q: "take (length q) (drop i s) = q"
    by (simp_all add: occurs_at_def)
  have "take (min (length p) (length q)) p
      = take (min (length p) (length q)) (take (length p) (drop i s))" by (simp only: p)
  also have "\<dots> = take (min (length p) (length q)) (take (length q) (drop i s))" by simp
  also have "\<dots> = take (min (length p) (length q)) q" by (simp only: q)
  finally show ?thesis .
qed

lemma occurs_first:
  assumes "occurs_at (c # p) s i"
  shows "i < length s \<and> s ! i = c"
proof -
  from assms have t: "take (Suc (length p)) (drop i s) = c # p" by (simp add: occurs_at_def)
  then have "drop i s \<noteq> []" by auto
  then have l: "i < length s" by simp
  then have "drop i s = s ! i # drop (Suc i) s" by (simp add: Cons_nth_drop_Suc)
  with t l show ?thesis by simp
qed

lemma safe_no_script:
  assumes "safe_html s"
  shows "\<not> occurs_at (u ''<script'') s i" and "\<not> occurs_at (u ''<img'') s i"
proof -
  show "\<not> occurs_at (u ''<script'') s i"
  proof
    assume o: "occurs_at (u ''<script'') s i"
    have "u ''<script'' = 0x3C # u ''script''" by (simp add: u_def)
    with o occurs_first[of "0x3C" "u ''script''" s i] have "i < length s" "s ! i = 0x3C" by simp_all
    from safe_lt_is_tag[OF assms this] obtain t where t: "t \<in> set renderer_tags" "occurs_at t s i"
      by blast
    have l: "length (u ''<script'') = 7" by (simp add: u_def)
    from occurs_agree[OF t(2) o] l
    have "take (min (length t) 7) t = take (min (length t) 7) (u ''<script'')" by simp
    with tags_not_script t(1) show False by (auto simp: list_all_iff)
  qed
  show "\<not> occurs_at (u ''<img'') s i"
  proof
    assume o: "occurs_at (u ''<img'') s i"
    have "u ''<img'' = 0x3C # u ''img''" by (simp add: u_def)
    with o occurs_first[of "0x3C" "u ''img''" s i] have "i < length s" "s ! i = 0x3C" by simp_all
    from safe_lt_is_tag[OF assms this] obtain t where t: "t \<in> set renderer_tags" "occurs_at t s i"
      by blast
    have l: "length (u ''<img'') = 4" by (simp add: u_def)
    from occurs_agree[OF t(2) o] l
    have "take (min (length t) 4) t = take (min (length t) 4) (u ''<img'')" by simp
    with tags_not_script t(1) show False by (auto simp: list_all_iff)
  qed
qed

text \<open>
  C1. The renderer first replaces every \<^verbatim>\<open>&\<close>, \<^verbatim>\<open><\<close> and \<^verbatim>\<open>>\<close> of its input by the entity
  (the three global replacements together are the unit-by-unit escaping), and every later
  step works on that escaped text. For every input the output is made of units other
  than these three, of the three entities and of the renderer's own tags: each \<^verbatim>\<open><\<close> in it
  begins one of the renderer's tags, each \<^verbatim>\<open>&\<close> begins one of the three entities, and
  neither \<^verbatim>\<open><script\<close> nor \<^verbatim>\<open><img\<close> occurs anywhere in it.
\<close>

theorem C1_output_is_escaped:
  "escapeHtml text = concat (map escape_unit text)
   \<and> 0x3C \<notin> set (escapeHtml text) \<and> 0x3E \<notin> set (escapeHtml text)
   \<and> formatBotText text =
       inlineFormat (replace_all re_table_block (\<lambda>m cs. renderMarkdownTable m)
         (dropPartialRow (escapeHtml text)))
   \<and> safe_html (formatBotText text)
   \<and> (\<forall>i. i < length (formatBotText text) \<and> formatBotText text ! i = 0x3C
          \<longrightarrow> (\<exists>t\<in>set renderer_tags. occurs_at t (formatBotText text) i))
   \<and> (\<forall>i. i < length (formatBotText text) \<and> formatBotText text ! i = 0x26
          \<longrightarrow> (\<exists>t\<in>set entities. occurs_at t (formatBotText text) i))
   \<and> (\<forall>i. \<not> occurs_at (u ''<script'') (formatBotText text) i)
   \<and> (\<forall>i. \<not> occurs_at (u ''<img'') (formatBotText text) i)"
proof -
  have s: "safe_html (formatBotText text)" by (rule formatBotText_safe)
  have f: "formatBotText text =
       inlineFormat (replace_all re_table_block (\<lambda>m cs. renderMarkdownTable m)
         (dropPartialRow (escapeHtml text)))"
    by (simp add: formatBotText_def)
  note a = safe_lt_is_tag[OF s] safe_amp_is_entity[OF s]
  note b = safe_no_script[OF s]
  note c = escapeHtml_units[of "text"] escapeHtml_no_markup[of "text"]
  from s a b c f show ?thesis by blast
qed

theorem C1_output_is_escaped_witness:
  "formatBotText (u ''<script> & *a*'') = u ''<p>&lt;script&gt; &amp; <em>a</em></p>''
   \<and> safe_html (u ''<p>&lt;script&gt; &amp; <em>a</em></p>'')
   \<and> \<not> occurs_at (u ''<script'') (u ''<p>&lt;script&gt; &amp; <em>a</em></p>'') 7"
proof -
  have e: "formatBotText (u ''<script> & *a*'') = u ''<p>&lt;script&gt; &amp; <em>a</em></p>''"
    by code_simp
  from C1_output_is_escaped[of "u ''<script> & *a*''"]
  have "safe_html (formatBotText (u ''<script> & *a*''))
      \<and> \<not> occurs_at (u ''<script'') (formatBotText (u ''<script> & *a*'')) 7"
    by blast
  with e show ?thesis by (simp only: simp_thms)
qed

section \<open>The renderer on a table written from its cells\<close>

subsection \<open>The first match of a greedy repetition\<close>










subsection \<open>The rows of a table block\<close>






subsection \<open>Replacing when the whole text is the match, and when nothing matches\<close>








subsection \<open>No partial row in a table of complete rows\<close>





subsection \<open>The table block is one match\<close>


subsection \<open>The inline steps on a text without markup\<close>











subsection \<open>Counting tags\<close>

lemma occurrences_skip_unit:
  "c \<noteq> x \<Longrightarrow> occurrences (x # p) (c # cs) = occurrences (x # p) cs"
  by simp


lemma occurrences_at:
  "occurrences (x # p) (x # cs) = (if take (length p) cs = p then 1 else 0) + occurrences (x # p) cs"
  by simp

subsection \<open>The cells after escaping\<close>






subsection \<open>The rendered table\<close>






subsection \<open>The whole renderer on the table\<close>




text \<open>
  An asterisk or a backtick in a cell is rewritten by the inline steps, which run after
  the table step and see the whole row: the emphasis below starts in the first header
  cell and ends in the second. The statement that follows leaves such cells out.
\<close>

lemma emphasis_across_cells:
  \<open>formatBotText (u ''| *a | b* |\<newline>|---|---|\<newline>| c | d |'')
     = u ''<p><table class="qb-table"><thead><tr><th><em>a</th><th>b</em></th></tr></thead><tbody><tr><td>c</td><td>d</td></tr></tbody></table></p>''\<close>
  by code_simp



end
